theory Spec2Isabelle
  imports Main "HOL-Library.Word" "HOL-Library.AList"
begin

unbundle bit_operations_syntax

section \<open>Data model of package files (src/files/set.go)\<close>

type_synonym u64 = "64 word"
type_synonym u32 = "32 word"
type_synonym byte = "8 word"

text \<open>
  A Go map is an association list with distinct keys: \<open>map_of\<close> reads it,
  \<open>AList.update\<close> assigns an entry, \<open>AList.delete\<close> deletes one and a
  \<open>range\<close> loop visits the entries in list order. Go leaves the iteration order of a map
  unspecified; the theorems below hold for every state, hence for every order of the entries.
  A nil map is \<open>None\<close>, an allocated one \<open>Some\<close>.
\<close>

type_synonym ('k, 'v) gomap = "('k \<times> 'v) list"

text \<open>
  Modelled from the spec: the block record of package scanner (its declaration is not under src/):
  a block is \<open>{offset, size, hash}\<close>.
\<close>

record Block =
  BOffset :: u64
  BSize :: u32
  BHash :: "byte list"

text \<open>
  scanner.File; the declaration is not under src/, the fields are the ones src/scanner/walk.go
  and src/files/set.go read and write. \<open>Blocks = nil\<close> is the empty list.
\<close>

record File =
  Name :: string
  Version :: u64
  Flags :: u32
  Modified :: u64
  Size :: u64
  Blocks :: "Block list"
  Suppressed :: bool

definition zeroFile :: File where
  "zeroFile = \<lparr>Name = [], Version = 0, Flags = 0, Modified = 0, Size = 0, Blocks = [],
     Suppressed = False\<rparr>"

text \<open>
  Modelled from the spec: the type key and its functions keyFor and newerThan (package files; the
  file that declares them is not under src/): \<open>keyFor(file) = (file.name, file.version)\<close>,
  \<open>a.newerThan(b)\<close> is \<open>a.version > b.version\<close>.
\<close>

record key =
  KName :: string
  KVersion :: u64

definition zeroKey :: key where
  "zeroKey = \<lparr>KName = [], KVersion = 0\<rparr>"

definition keyFor :: "File \<Rightarrow> key" where
  "keyFor f = \<lparr>KName = Name f, KVersion = Version f\<rparr>"

definition newerThan :: "key \<Rightarrow> key \<Rightarrow> bool" where
  "newerThan a b = (KVersion b < KVersion a)"

text \<open>
  Modelled from the spec: protocol.FlagDeleted and protocol.IsDeleted (package protocol, not under
  src/): Deleted is one reserved bit of the flags; the wire protocol puts it at bit 12.
\<close>

definition FlagDeleted :: u32 where
  "FlagDeleted = push_bit 12 1"

definition IsDeleted :: "u32 \<Rightarrow> bool" where
  "IsDeleted fl = (fl AND FlagDeleted \<noteq> 0)"

text \<open>
  Modelled from the spec: cid.LocalID (package cid, not under src/): the reserved slot of this
  node's own scan, integer 0.
\<close>

definition LocalID :: nat where
  "LocalID = 0"

text \<open>
  Modelled from the spec: lamport.Default.Tick (package lamport, not under src/). The clock is a
  counter \<open>v\<close>; \<open>Tick(observed)\<close> returns \<open>max(v, observed) + 1\<close> as a u64 and
  assigns that to \<open>v\<close>. The process-wide clock is passed in and returned.
\<close>

definition Tick :: "u64 \<Rightarrow> u64 \<Rightarrow> u64 \<times> u64" where
  "Tick v observed = (max v observed + 1, max v observed + 1)"

record fileRecord =
  File :: File
  Usage :: int
  Global :: bool

definition zeroRecord :: fileRecord where
  "zeroRecord = \<lparr>File = zeroFile, Usage = 0, Global = False\<rparr>"

type_synonym bitset = u64

text \<open>
  The struct Set. The arrays \<open>remoteKey [64]map[string]key\<close> and \<open>changes [64]uint64\<close>
  are functions of the index; every operation checks the index against 63 before it reads them,
  as the source does (by an explicit panic or by Go's bounds check). The mutex, the repository
  name and the database handle hold no in-memory state of the set: every operation discards the
  result of its database transaction, so the in-memory update does not depend on it.
\<close>

record Set =
  files :: "(key, fileRecord) gomap"
  remoteKey :: "nat \<Rightarrow> (string, key) gomap option"
  changes :: "nat \<Rightarrow> u64"
  globalAvailability :: "(string, bitset) gomap"
  globalKey :: "(string, key) gomap"
  globalVersion :: "(string, u64) gomap"

datatype error =
  PanicConnectionID
  | PanicIndexOutOfRange
  | FatalUpdateBeforeReplace

definition NewSet :: Set where
  "NewSet = \<lparr>files = [], remoteKey = (\<lambda>i. None), changes = (\<lambda>i. 0),
     globalAvailability = [], globalKey = [], globalVersion = []\<rparr>"

subsection \<open>Reading Go maps\<close>

text \<open>Reading a nil map behaves as reading an empty one.\<close>

definition peerIndex :: "Set \<Rightarrow> nat \<Rightarrow> (string, key) gomap" where
  "peerIndex s i = (case remoteKey s i of None \<Rightarrow> [] | Some rem \<Rightarrow> rem)"

text \<open>\<open>m.files[k]\<close>: the zero record when the key is absent.\<close>

definition getRecord :: "(key, fileRecord) gomap \<Rightarrow> key \<Rightarrow> fileRecord" where
  "getRecord fm k = (case map_of fm k of None \<Rightarrow> zeroRecord | Some r \<Rightarrow> r)"

definition getKey :: "(string, key) gomap \<Rightarrow> string \<Rightarrow> key" where
  "getKey km n = (case map_of km n of None \<Rightarrow> zeroKey | Some k \<Rightarrow> k)"

definition getBits :: "(string, bitset) gomap \<Rightarrow> string \<Rightarrow> bitset" where
  "getBits am n = (case map_of am n of None \<Rightarrow> 0 | Some a \<Rightarrow> a)"

subsection \<open>update\<close>

text \<open>\<open>f := m.files[k]; f.Global = b; m.files[k] = f\<close>\<close>

definition setGlobal :: "bool \<Rightarrow> key \<Rightarrow> (key, fileRecord) gomap \<Rightarrow> (key, fileRecord) gomap" where
  "setGlobal b k fm = AList.update k ((getRecord fm k)\<lparr>Global := b\<rparr>) fm"

text \<open>"Keep the block list or increment the usage".\<close>

definition addUsage :: "File \<Rightarrow> (key, fileRecord) gomap \<Rightarrow> (key, fileRecord) gomap" where
  "addUsage f fm =
     (case map_of fm (keyFor f) of
        None \<Rightarrow> AList.update (keyFor f) \<lparr>File = f, Usage = 1, Global = False\<rparr> fm
      | Some br \<Rightarrow> AList.update (keyFor f) (br\<lparr>Usage := Usage br + 1\<rparr>) fm)"

text \<open>"Update global view": the switch of update, for the file \<open>f\<close> of peer \<open>cid\<close>.\<close>

definition promote :: "nat \<Rightarrow> File \<Rightarrow> Set \<Rightarrow> Set" where
  "promote cid f s =
     s\<lparr>files := setGlobal True (keyFor f) (files s),
       globalKey := AList.update (Name f) (keyFor f) (globalKey s),
       globalAvailability := AList.update (Name f) (push_bit cid 1) (globalAvailability s)\<rparr>"

definition updateGlobal :: "nat \<Rightarrow> File \<Rightarrow> Set \<Rightarrow> Set" where
  "updateGlobal cid f s =
     (case map_of (globalKey s) (Name f) of
        Some gk \<Rightarrow>
          if keyFor f = gk then
            s\<lparr>globalAvailability :=
                AList.update (Name f) (getBits (globalAvailability s) (Name f) OR push_bit cid 1)
                  (globalAvailability s)\<rparr>
          else if newerThan (keyFor f) gk then
            promote cid f (s\<lparr>files := setGlobal False gk (files s)\<rparr>)
          else s
      | None \<Rightarrow>
          if newerThan (keyFor f) zeroKey then promote cid f s else s)"

text \<open>The body of the loop of update.\<close>

definition updateFile :: "nat \<Rightarrow> File \<Rightarrow> Set \<Rightarrow> Set" where
  "updateFile cid f s =
     (if map_of (peerIndex s cid) (Name f) = Some (keyFor f) then s
      else updateGlobal cid f
        (s\<lparr>remoteKey := (remoteKey s)(cid := Some (AList.update (Name f) (keyFor f) (peerIndex s cid))),
           files := addUsage f (files s)\<rparr>))"

fun updateFiles :: "nat \<Rightarrow> File list \<Rightarrow> Set \<Rightarrow> Set" where
  "updateFiles cid [] s = s"
| "updateFiles cid (f # fs) s = updateFiles cid fs (updateFile cid f s)"

definition update :: "Set \<Rightarrow> nat \<Rightarrow> File list \<Rightarrow> error + Set" where
  "update s cid fs =
     (if 63 < cid then Inl PanicIndexOutOfRange
      else case remoteKey s cid of
        None \<Rightarrow> Inl FatalUpdateBeforeReplace
      | Some rem \<Rightarrow> Inr (updateFiles cid fs s))"

subsection \<open>replace\<close>

text \<open>"Decrement usage for all files belonging to this remote, and remove those that are no
  longer needed."\<close>

definition release :: "key \<Rightarrow> (key, fileRecord) gomap \<Rightarrow> (key, fileRecord) gomap" where
  "release fk fm =
     (case map_of fm fk of
        None \<Rightarrow> fm
      | Some br \<Rightarrow>
          if Usage br = 1 then AList.delete fk fm
          else if 1 < Usage br then AList.update fk (br\<lparr>Usage := Usage br - 1\<rparr>) fm
          else fm)"

text \<open>The inner loop of the recalculation: one step for peer \<open>i\<close>, on the newest key and
  the newest availability so far.\<close>

definition newestStep :: "Set \<Rightarrow> string \<Rightarrow> nat \<Rightarrow> key \<times> bitset \<Rightarrow> key \<times> bitset" where
  "newestStep s n i acc =
     (case map_of (peerIndex s i) n of
        None \<Rightarrow> acc
      | Some rk \<Rightarrow>
          if rk = fst acc then (fst acc, snd acc OR push_bit i 1)
          else if newerThan rk (fst acc) then (rk, push_bit i 1)
          else acc)"

definition newest :: "Set \<Rightarrow> string \<Rightarrow> key \<times> bitset" where
  "newest s n = fold (newestStep s n) [0..<64] (zeroKey, 0)"

text \<open>The body of the loop over the names of globalKey.\<close>

definition recalc :: "string \<Rightarrow> Set \<Rightarrow> Set" where
  "recalc n s =
     (let nk = fst (newest s n); na = snd (newest s n) in
      if na \<noteq> 0 then
        s\<lparr>files := setGlobal True nk (files s),
          globalKey := AList.update n nk (globalKey s),
          globalAvailability := AList.update n na (globalAvailability s)\<rparr>
      else
        s\<lparr>globalKey := AList.delete n (globalKey s),
          globalAvailability := AList.delete n (globalAvailability s)\<rparr>)"

definition replace :: "Set \<Rightarrow> nat \<Rightarrow> File list \<Rightarrow> error + Set" where
  "replace s cid fs =
     (let s1 = s\<lparr>files := fold release (map snd (peerIndex s cid)) (files s)\<rparr>;
          s2 = s1\<lparr>remoteKey := (remoteKey s1)(cid := Some [])\<rparr>;
          s3 = fold recalc (map fst (globalKey s2)) s2
      in update s3 cid fs)"

subsection \<open>equals and the public operations\<close>

definition curWithoutDeleted :: "Set \<Rightarrow> nat \<Rightarrow> (string, key) gomap" where
  "curWithoutDeleted s ident =
     fold (\<lambda>k cur. if IsDeleted (Flags (File (getRecord (files s) k))) then cur
                    else AList.update (Name (File (getRecord (files s) k))) k cur)
       (map snd (peerIndex s ident)) []"

definition equals :: "Set \<Rightarrow> nat \<Rightarrow> File list \<Rightarrow> bool" where
  "equals s ident fs =
     (if length (curWithoutDeleted s ident) \<noteq> length fs then False
      else list_all (\<lambda>f. getKey (curWithoutDeleted s ident) (Name f) = keyFor f) fs)"

definition bumpChanges :: "nat \<Rightarrow> Set \<Rightarrow> Set" where
  "bumpChanges ident s = s\<lparr>changes := (changes s)(ident := changes s ident + 1)\<rparr>"

definition Replace :: "Set \<Rightarrow> nat \<Rightarrow> File list \<Rightarrow> error + Set" where
  "Replace s ident fs =
     (if 63 < ident then Inl PanicConnectionID
      else if fs = [] \<or> \<not> equals s ident fs then replace (bumpChanges ident s) ident fs
      else Inr s)"

text \<open>
  The loop of ReplaceWithDelete over the keys of \<open>remoteKey[cid.LocalID]\<close>: \<open>nf\<close> is the set
  of names of the given list, \<open>c\<close> the clock; the result is the files to append and the clock
  after the ticks.
\<close>

fun deletedFiles :: "Set \<Rightarrow> string set \<Rightarrow> key list \<Rightarrow> u64 \<Rightarrow> File list \<times> u64" where
  "deletedFiles s nf [] c = ([], c)"
| "deletedFiles s nf (ck # cks) c =
     (if KName ck \<in> nf then deletedFiles s nf cks c
      else
        let cf = File (getRecord (files s) ck) in
        if \<not> IsDeleted (Flags cf) then
          let cf' = cf\<lparr>Flags := Flags cf OR FlagDeleted, Blocks := [], Size := 0,
                        Version := fst (Tick c (Version cf))\<rparr>;
              r = deletedFiles s nf cks (snd (Tick c (Version cf)))
          in (cf' # fst r, snd r)
        else
          let r = deletedFiles s nf cks c in (cf # fst r, snd r))"

definition ReplaceWithDelete :: "Set \<Rightarrow> u64 \<Rightarrow> nat \<Rightarrow> File list \<Rightarrow> error + (Set \<times> u64)" where
  "ReplaceWithDelete s c ident fs =
     (if 63 < ident then Inl PanicConnectionID
      else if fs = [] \<or> \<not> equals s ident fs then
        (let s1 = bumpChanges ident s;
             r = deletedFiles s1 (Name ` set fs) (map snd (peerIndex s1 LocalID)) c
         in case replace s1 ident (fs @ fst r) of
              Inl e \<Rightarrow> Inl e
            | Inr s2 \<Rightarrow> Inr (s2, snd r))
      else Inr (s, c))"

definition Update :: "Set \<Rightarrow> nat \<Rightarrow> File list \<Rightarrow> error + Set" where
  "Update s ident fs =
     (case update s ident fs of
        Inl e \<Rightarrow> Inl e
      | Inr s1 \<Rightarrow> Inr (bumpChanges ident s1))"

subsection \<open>The accessors\<close>

definition needed :: "Set \<Rightarrow> nat \<Rightarrow> key \<times> fileRecord \<Rightarrow> bool" where
  "needed s ident e =
     (if \<not> Global (snd e) \<or> Suppressed (File (snd e)) then False
      else if newerThan (fst e) (getKey (peerIndex s ident) (KName (fst e))) then
        \<not> (IsDeleted (Flags (File (snd e))) \<and>
            (map_of (peerIndex s ident) (KName (fst e)) = None \<or>
             IsDeleted (Flags (File (getRecord (files s)
               (getKey (peerIndex s ident) (KName (fst e))))))))
      else False)"

definition Need :: "Set \<Rightarrow> nat \<Rightarrow> error + File list" where
  "Need s ident =
     (if 63 < ident then Inl PanicIndexOutOfRange
      else Inr (map (\<lambda>e. File (snd e)) (filter (needed s ident) (files s))))"

definition Availability :: "Set \<Rightarrow> string \<Rightarrow> bitset" where
  "Availability s n = getBits (globalAvailability s) n"

definition Changes :: "Set \<Rightarrow> nat \<Rightarrow> error + u64" where
  "Changes s ident = (if 63 < ident then Inl PanicIndexOutOfRange else Inr (changes s ident))"


subsection \<open>Sample files\<close>

text \<open>The file \<open>n@v\<close> of the scenarios: a name and a version, everything else zero.\<close>

definition mkFile :: "string \<Rightarrow> u64 \<Rightarrow> File" where
  "mkFile n v = zeroFile\<lparr>Name := n, Version := v\<rparr>"

subsection \<open>Sample states\<close>

text \<open>The set after \<open>Replace(0, [a@1])\<close> on a new set, and after \<open>Update(0, [a@2])\<close> on
  that.\<close>

definition onceReplaced :: Set where
  "onceReplaced = projr (Replace NewSet 0 [mkFile ''a'' 1])"

definition thenUpdated :: Set where
  "thenUpdated = projr (Update onceReplaced 0 [mkFile ''a'' 2])"

text \<open>The number of peer indices in 0..63 whose name-to-key map has the key \<open>k\<close> as a
  value.\<close>

definition refCount :: "Set \<Rightarrow> key \<Rightarrow> nat" where
  "refCount s k = length (filter (\<lambda>i. k \<in> set (map snd (peerIndex s i))) [0..<64])"

text \<open>The three-peer scenario: peers 0, 1 and 2 replace with a@5, a@7 and a@7.\<close>

definition threePeers :: Set where
  "threePeers =
     projr (Replace (projr (Replace (projr (Replace NewSet 0 [mkFile ''a'' 5])) 1 [mkFile ''a'' 7]))
       2 [mkFile ''a'' 7])"

text \<open>A file with the empty name: peer 0 replaces with it at version 1, peer 1 with it at
  version 0, and peer 0 then replaces with the empty list.\<close>

definition emptyNameA :: Set where
  "emptyNameA = projr (Replace NewSet 0 [mkFile [] 1])"

definition emptyNameB :: Set where
  "emptyNameB = projr (Replace emptyNameA 1 [mkFile [] 0])"

definition emptyNameC :: Set where
  "emptyNameC = projr (Replace emptyNameB 0 [])"

text \<open>The local peer replaces with b@3, and with b at the largest version a u64 holds; then
  ReplaceWithDelete with the empty list, the clock at 0.\<close>

definition localB3 :: Set where
  "localB3 = projr (Replace NewSet LocalID [mkFile ''b'' 3])"

definition localB3Deleted :: "Set \<times> u64" where
  "localB3Deleted = projr (ReplaceWithDelete localB3 0 LocalID [])"

definition localBmax :: Set where
  "localBmax = projr (Replace NewSet LocalID [mkFile ''b'' 18446744073709551615])"

definition localBmaxDeleted :: "Set \<times> u64" where
  "localBmaxDeleted = projr (ReplaceWithDelete localBmax 0 LocalID [])"

subsection \<open>What ReplaceWithDelete appends for a key\<close>

text \<open>
  The file \<open>f\<close> that stands for the key \<open>ck\<close> of the local index in the list handed to
  replace: the current file of \<open>ck\<close> itself when that has the Deleted flag; otherwise that file
  with the Deleted flag set, no blocks, size 0 and as version the result of a Tick on the old
  version, which is greater than the old version unless the u64 wrapped around to 0.
\<close>

definition tombstoned :: "Set \<Rightarrow> key \<Rightarrow> File \<Rightarrow> bool" where
  "tombstoned s ck f =
     (let cf = File (getRecord (files s) ck) in
      if IsDeleted (Flags cf) then f = cf
      else IsDeleted (Flags f) \<and> Blocks f = [] \<and> Size f = 0 \<and>
        (\<exists>v. Version f = fst (Tick v (Version cf))) \<and>
        (Version f = 0 \<or> Version cf < Version f) \<and>
        f = cf\<lparr>Flags := Flags cf OR FlagDeleted, Blocks := [], Size := 0, Version := Version f\<rparr>)"

subsection \<open>The global view\<close>

text \<open>What peer \<open>i\<close> holds for the name \<open>n\<close>.\<close>

definition held :: "Set \<Rightarrow> nat \<Rightarrow> string \<Rightarrow> key option" where
  "held s i n = map_of (peerIndex s i) n"

text \<open>Every entry of the 64 peer indices maps a name to a key of that name and of a version
  other than 0 (the version of the zero key, which the code takes for an absent entry).\<close>

definition indexWellFormed :: "Set \<Rightarrow> bool" where
  "indexWellFormed s = (\<forall>i<64. \<forall>n k. held s i n = Some k \<longrightarrow> KName k = n \<and> KVersion k \<noteq> 0)"

text \<open>
  The global view is right at the name \<open>n\<close>: if globalKey has no entry, no peer holds the name;
  if its entry is \<open>gk\<close>, some peer holds \<open>gk\<close> for the name, no peer holds a key of a greater
  version, and the availability has exactly the bits of the peers that hold \<open>gk\<close>.
\<close>

definition globalAt :: "Set \<Rightarrow> string \<Rightarrow> bool" where
  "globalAt s n =
     (case map_of (globalKey s) n of
        None \<Rightarrow> (\<forall>i<64. held s i n = None)
      | Some gk \<Rightarrow>
          (\<exists>i<64. held s i n = Some gk) \<and>
          (\<forall>i<64. \<forall>k. held s i n = Some k \<longrightarrow> KVersion k \<le> KVersion gk) \<and>
          (\<forall>i. bit (Availability s n) i \<longleftrightarrow> i < 64 \<and> held s i n = Some gk))"

definition globalViewCorrect :: "Set \<Rightarrow> bool" where
  "globalViewCorrect s = (\<forall>n. globalAt s n)"

text \<open>The lists the global view stays right for: every version is other than 0, a name that
  comes again comes with a version that is not lower, and no file has a lower version than the
  one the peer holds for its name.\<close>

definition positiveVersions :: "File list \<Rightarrow> bool" where
  "positiveVersions fs = (\<forall>f \<in> set fs. Version f \<noteq> 0)"

fun ascendingPerName :: "File list \<Rightarrow> bool" where
  "ascendingPerName [] = True"
| "ascendingPerName (f # fs) =
     ((\<forall>g \<in> set fs. Name g = Name f \<longrightarrow> Version f \<le> Version g) \<and> ascendingPerName fs)"

definition notBelowHeld :: "Set \<Rightarrow> nat \<Rightarrow> File list \<Rightarrow> bool" where
  "notBelowHeld s cid fs =
     (\<forall>f \<in> set fs. \<forall>k. held s cid (Name f) = Some k \<longrightarrow> KVersion k \<le> Version f)"

text \<open>The scan of the 64 peers in replace, after the first \<open>m\<close> of them.\<close>

definition scanned :: "Set \<Rightarrow> string \<Rightarrow> nat \<Rightarrow> key \<times> bitset \<Rightarrow> bool" where
  "scanned s n m r =
     (if \<forall>i<m. held s i n = None then r = (zeroKey, 0)
      else (\<exists>i<m. held s i n = Some (fst r)) \<and>
           (\<forall>i<m. \<forall>k. held s i n = Some k \<longrightarrow> KVersion k \<le> KVersion (fst r)) \<and>
           (\<forall>i. bit (snd r) i \<longleftrightarrow> i < m \<and> held s i n = Some (fst r)))"

text \<open>The list ReplaceWithDelete hands to the internal replace when it performs its mutation:
  the given files and the files of \<open>deletedFiles\<close>.\<close>

definition handedToReplace :: "Set \<Rightarrow> u64 \<Rightarrow> File list \<Rightarrow> File list" where
  "handedToReplace s c fs =
     fs @ fst (deletedFiles s (Name ` set fs) (map snd (peerIndex s LocalID)) c)"

text \<open>Peer 0 replaces with a@5 and then updates to a@3; and peer 0 replaces with a@0.\<close>

definition regressA :: Set where
  "regressA = projr (Replace NewSet 0 [mkFile ''a'' 5])"

definition regressB :: Set where
  "regressB = projr (Update regressA 0 [mkFile ''a'' 3])"

definition versionZero :: Set where
  "versionZero = projr (Replace NewSet 0 [mkFile ''a'' 0])"

section \<open>NodeID (src/unnamed/part_001, package protocol)\<close>

text \<open>
  A Go slice over an array it starts at: the backing array (its length is the capacity of the
  slice) and the length of the slice. \<open>append(s, xs...)\<close> writes into the backing array when
  the capacity suffices and otherwise leaves it alone and returns a slice over a new array. The
  result is the backing array afterwards and the contents of the returned slice.
\<close>

definition goAppend :: "byte list \<Rightarrow> nat \<Rightarrow> byte list \<Rightarrow> byte list \<times> byte list" where
  "goAppend backing len xs =
     (if len + length xs \<le> length backing
      then (take len backing @ xs @ drop (len + length xs) backing, take len backing @ xs)
      else (backing, take len backing @ xs))"

text \<open>
  \<open>hf.Sum(b)\<close> of the standard library's hash.Hash appends the digest to \<open>b\<close> and returns
  the resulting slice; \<open>digest\<close> is the SHA-256 digest of what was written to \<open>hf\<close>.
\<close>

definition hashSum :: "byte list \<Rightarrow> byte list \<Rightarrow> nat \<Rightarrow> byte list \<times> byte list" where
  "hashSum digest backing len = goAppend backing len digest"

text \<open>
  NewNodeID. \<open>sha256\<close> is the standard library's SHA-256, a parameter. \<open>var n NodeID\<close> is
  an array of 32 zero bytes; \<open>n[:]\<close> is the slice of length 32 and capacity 32 over it. The
  function returns the array \<open>n\<close>, not the slice that Sum returns.
\<close>

definition NewNodeID :: "(byte list \<Rightarrow> byte list) \<Rightarrow> byte list \<Rightarrow> byte list" where
  "NewNodeID sha256 rawCert =
     (let n = replicate 32 0;
          r = hashSum (sha256 rawCert) n 32
      in fst r)"

subsection \<open>The textual form\<close>

text \<open>
  The standard library's base32.StdEncoding (RFC 4648, with padding): the alphabet, the encoder
  and the decoder. A quantum of 5 bytes is 40 bits, written as 8 characters of 5 bits; a final
  quantum of 1, 2, 3 or 4 bytes gives 2, 4, 5 or 7 characters and is padded with \<open>=\<close> to 8.
\<close>

definition alphabet :: string where
  "alphabet = ''ABCDEFGHIJKLMNOPQRSTUVWXYZ234567''"

definition quantumChars :: "byte list \<Rightarrow> string" where
  "quantumChars src =
     (let v = foldl (\<lambda>a b. push_bit 8 a OR ucast b) (0 :: 40 word) (take 5 (src @ replicate 5 0))
      in map (\<lambda>j. alphabet ! unat (drop_bit (5 * (7 - j)) v AND 31)) [0..<8])"

definition dataChars :: "nat \<Rightarrow> nat" where
  "dataChars k = (if k = 1 then 2 else if k = 2 then 4 else if k = 3 then 5 else if k = 4 then 7 else 8)"

function EncodeToString :: "byte list \<Rightarrow> string" where
  "EncodeToString src =
     (if src = [] then []
      else if length src < 5 then
        take (dataChars (length src)) (quantumChars src) @
        replicate (8 - dataChars (length src)) CHR ''=''
      else quantumChars src @ EncodeToString (drop 5 src))"
  by pat_completeness auto
termination
  by (relation "measure length") auto

text \<open>\<open>strings.Trim(s, cutset)\<close>, \<open>strings.ToUpper\<close> (on the ASCII letters; the text of a
  NodeID has no other letters) and \<open>strings.Replace(s, c, "", -1)\<close> for a one-character
  \<open>c\<close>.\<close>

definition trim :: "string \<Rightarrow> string \<Rightarrow> string" where
  "trim cutset s = rev (dropWhile (\<lambda>c. c \<in> set cutset) (rev (dropWhile (\<lambda>c. c \<in> set cutset) s)))"

definition upperChar :: "char \<Rightarrow> char" where
  "upperChar c =
     (case map_of (zip ''abcdefghijklmnopqrstuvwxyz'' ''ABCDEFGHIJKLMNOPQRSTUVWXYZ'') c of
        None \<Rightarrow> c | Some u \<Rightarrow> u)"

definition ToUpper :: "string \<Rightarrow> string" where
  "ToUpper s = map upperChar s"

definition stripChar :: "char \<Rightarrow> string \<Rightarrow> string" where
  "stripChar c s = filter (\<lambda>d. d \<noteq> c) s"

text \<open>
  Modelled from the spec: luhn.Base32Trimmed.Generate (package luhn, not under src/): the check
  character of the Luhn mod N algorithm over the 32 characters of the base32 alphabet. Going
  from the right with the factors 2, 1, 2, ... each code point times its factor is written in
  base 32 and its two digits are added up; the check character is the one that brings the sum to
  a multiple of 32. A string with a character outside the alphabet has no check character.
\<close>

definition codePoint :: "char \<Rightarrow> nat option" where
  "codePoint c = map_of (zip alphabet [0..<32]) c"

fun luhnSum :: "string \<Rightarrow> nat \<Rightarrow> nat option" where
  "luhnSum [] factor = Some 0"
| "luhnSum (c # cs) factor =
     (case codePoint c of
        None \<Rightarrow> None
      | Some p \<Rightarrow>
          (case luhnSum cs (if factor = 2 then 1 else 2) of
             None \<Rightarrow> None
           | Some t \<Rightarrow> Some ((factor * p) div 32 + (factor * p) mod 32 + t)))"

definition Generate :: "string \<Rightarrow> char option" where
  "Generate s =
     (case luhnSum (rev s) 2 of
        None \<Rightarrow> None
      | Some t \<Rightarrow> Some (alphabet ! ((32 - t mod 32) mod 32)))"

text \<open>\<open>regexp.MustCompile("(.{9})").ReplaceAllString(id, "$1-")\<close>, for a text without line
  breaks: a hyphen after every full group of 9 characters.\<close>

function chunk9 :: "string \<Rightarrow> string" where
  "chunk9 s = (if length s < 9 then s else take 9 s @ ''-'' @ chunk9 (drop 9 s))"
  by pat_completeness auto
termination
  by (relation "measure length") auto

text \<open>
  String. A NodeID is an array of 32 bytes; the result is \<open>None\<close> for a list of another
  length, which the type excludes.
\<close>

definition String :: "byte list \<Rightarrow> string option" where
  "String n =
     (if length n \<noteq> 32 then None else
      let ident = stripChar CHR '' '' (stripChar CHR ''-'' (ToUpper (trim ''='' (EncodeToString n))));
          ident = (if length ident = 54 then take 26 ident @ take 26 (drop 27 ident) else ident);
          p0 = take 26 ident;
          p1 = drop 26 ident
      in case (Generate p0, Generate p1) of
           (Some c0, Some c1) \<Rightarrow> Some (trim ''-'' (chunk9 (p0 @ [c0] @ p1 @ [c1])))
         | _ \<Rightarrow> None)"

text \<open>
  The decoder of base32.StdEncoding: \<open>readQuantum\<close> reads up to 8 characters of a quantum into
  \<open>dbuf\<close>; running out of input inside a quantum, or a character outside the alphabet that
  is not valid padding, is a CorruptInputError. DecodeString removes CR and LF first.
\<close>

datatype nodeError = CorruptInputError | IncorrectLength | IncorrectCheckCharacters

definition padding :: "string \<Rightarrow> nat list \<Rightarrow> nodeError + (nat list \<times> bool)" where
  "padding rest dbuf =
     (if length rest + length dbuf < 7 then Inl CorruptInputError
      else if list_ex (\<lambda>c. c \<noteq> CHR ''='') (take (7 - length dbuf) rest) then Inl CorruptInputError
      else if length dbuf = 1 \<or> length dbuf = 3 \<or> length dbuf = 6 then Inl CorruptInputError
      else Inr (dbuf, True))"

definition isPadding :: "char \<Rightarrow> string \<Rightarrow> nat list \<Rightarrow> bool" where
  "isPadding c rest dbuf = (c = CHR ''='' \<and> 2 \<le> length dbuf \<and> length rest < 8)"

fun readQuantum :: "nat \<Rightarrow> string \<Rightarrow> nat list \<Rightarrow> nodeError + (nat list \<times> bool)" where
  "readQuantum 0 src dbuf = Inr (dbuf, False)"
| "readQuantum (Suc m) src dbuf =
     (case src of
        [] \<Rightarrow> Inl CorruptInputError
      | c # rest \<Rightarrow>
          if isPadding c rest dbuf then padding rest dbuf
          else (case codePoint c of
                  None \<Rightarrow> Inl CorruptInputError
                | Some v \<Rightarrow> readQuantum m rest (dbuf @ [v])))"

definition quantumBytes :: "nat list \<Rightarrow> byte list" where
  "quantumBytes dbuf =
     (let v = foldl (\<lambda>a d. push_bit 5 a OR of_nat d) (0 :: 40 word) (take 8 (dbuf @ replicate 8 0));
          k = (if length dbuf = 8 then 5 else if length dbuf = 7 then 4 else if length dbuf = 5 then 3
               else if length dbuf = 4 then 2 else if length dbuf = 2 then 1 else 0)
      in take k (map (\<lambda>i. ucast (drop_bit (8 * (4 - i)) v)) [0..<5]))"

function decode :: "string \<Rightarrow> nodeError + byte list" where
  "decode src =
     (if src = [] then Inr []
      else case readQuantum 8 src [] of
        Inl e \<Rightarrow> Inl e
      | Inr (dbuf, fin) \<Rightarrow>
          if fin then Inr (quantumBytes dbuf)
          else (case decode (drop 8 src) of
                  Inl e \<Rightarrow> Inl e
                | Inr bs \<Rightarrow> Inr (quantumBytes dbuf @ bs)))"
  by pat_completeness auto
termination
  by (relation "measure length") auto

definition DecodeString :: "string \<Rightarrow> nodeError + byte list" where
  "DecodeString s = decode (filter (\<lambda>c. c \<noteq> CHR 0x0D \<and> c \<noteq> CHR 0x0A) s)"

text \<open>\<open>copy(dst, src)\<close>, and UnmarshalText: the result is the error (\<open>None\<close> is nil) and
  the receiver \<open>n\<close> afterwards.\<close>

definition goCopy :: "byte list \<Rightarrow> byte list \<Rightarrow> byte list" where
  "goCopy dst src = take (length dst) src @ drop (length src) dst"

definition UnmarshalText :: "byte list \<Rightarrow> string \<Rightarrow> nodeError option \<times> byte list" where
  "UnmarshalText n bs =
     (let ident = stripChar CHR '' '' (stripChar CHR ''-'' (ToUpper (trim ''='' bs))) in
      case DecodeString ident of
        Inl e \<Rightarrow> (Some e, n)
      | Inr dec \<Rightarrow>
          let n' = goCopy n dec in
          if length ident = 52 then (None, n')
          else if length ident = 54 then
            (let p0 = take 26 ident; p1 = take 26 (drop 27 ident) in
             case (Generate p0, Generate p1) of
               (Some c0, Some c1) \<Rightarrow>
                 if p0 @ [c0] @ p1 @ [c1] \<noteq> ident then (Some IncorrectCheckCharacters, n')
                 else (None, n')
             | _ \<Rightarrow> (Some IncorrectCheckCharacters, n'))
          else (Some IncorrectLength, n'))"

section \<open>Walk (src/scanner/walk.go)\<close>

text \<open>What \<open>os.Lstat\<close> answers: an error, or the info of the entry (is it a directory).\<close>

datatype lstat = LstatError string | LstatInfo bool

definition checkDir :: "string \<Rightarrow> lstat \<Rightarrow> string option" where
  "checkDir dir st =
     (case st of
        LstatError e \<Rightarrow> Some e
      | LstatInfo isDir \<Rightarrow> if \<not> isDir then Some (dir @ '': not a directory'') else None)"

text \<open>
  The named results of Walk: \<open>files\<close> (nil is the empty list), \<open>ignore\<close> (nil until Walk
  makes the map) and \<open>err\<close>.
\<close>

record walked =
  wFiles :: "File list"
  wIgnore :: "(string, string list) gomap option"
  wErr :: "string option"

text \<open>
  Walk. The file system is the environment: \<open>before\<close> and \<open>after\<close> are what Lstat answers
  for the base directory at the first and at the second check, and \<open>passes\<close> is what the two
  calls of \<open>filepath.Walk\<close> leave in \<open>files\<close> and \<open>ignore\<close> (the hash pass appends to the
  result \<open>files\<close> through the pointer it was given; per-entry errors are skipped, so the
  passes themselves never fail).
\<close>

definition Walk ::
  "string \<Rightarrow> lstat \<Rightarrow> File list \<times> (string, string list) gomap \<Rightarrow> lstat \<Rightarrow> walked" where
  "Walk dir before passes after =
     (case checkDir dir before of
        Some e \<Rightarrow> \<lparr>wFiles = [], wIgnore = None, wErr = Some e\<rparr>
      | None \<Rightarrow> \<lparr>wFiles = fst passes, wIgnore = Some (snd passes), wErr = checkDir dir after\<rparr>)"

section \<open>What update and replace leave alone\<close>

lemma updateGlobal_frame:
  "remoteKey (updateGlobal cid f s) = remoteKey s \<and> changes (updateGlobal cid f s) = changes s
   \<and> globalVersion (updateGlobal cid f s) = globalVersion s"
  by (simp add: updateGlobal_def promote_def split: option.split)

lemma updateFile_changes: "changes (updateFile cid f s) = changes s"
  by (simp add: updateFile_def updateGlobal_frame)

lemma updateFile_globalVersion: "globalVersion (updateFile cid f s) = globalVersion s"
  by (simp add: updateFile_def updateGlobal_frame)

lemma updateFile_remoteKey_other: "j \<noteq> cid \<Longrightarrow> remoteKey (updateFile cid f s) j = remoteKey s j"
  by (simp add: updateFile_def updateGlobal_frame)

lemma updateFiles_changes: "changes (updateFiles cid fs s) = changes s"
  by (induction fs arbitrary: s) (simp_all add: updateFile_changes)

lemma updateFiles_globalVersion: "globalVersion (updateFiles cid fs s) = globalVersion s"
  by (induction fs arbitrary: s) (simp_all add: updateFile_globalVersion)

lemma updateFiles_remoteKey_other:
  "j \<noteq> cid \<Longrightarrow> remoteKey (updateFiles cid fs s) j = remoteKey s j"
  by (induction fs arbitrary: s) (simp_all add: updateFile_remoteKey_other)

lemma recalc_frame:
  "remoteKey (recalc n s) = remoteKey s \<and> changes (recalc n s) = changes s
   \<and> globalVersion (recalc n s) = globalVersion s"
  by (simp add: recalc_def Let_def)

lemma fold_recalc_frame:
  "remoteKey (fold recalc ns s) = remoteKey s \<and> changes (fold recalc ns s) = changes s
   \<and> globalVersion (fold recalc ns s) = globalVersion s"
  by (induction ns arbitrary: s) (simp_all add: recalc_frame)

lemma update_changes: "update s cid fs = Inr s' \<Longrightarrow> changes s' = changes s"
  by (auto simp: update_def updateFiles_changes split: if_splits option.splits)

lemma update_globalVersion: "update s cid fs = Inr s' \<Longrightarrow> globalVersion s' = globalVersion s"
  by (auto simp: update_def updateFiles_globalVersion split: if_splits option.splits)

lemma update_remoteKey_other:
  "update s cid fs = Inr s' \<Longrightarrow> j \<noteq> cid \<Longrightarrow> remoteKey s' j = remoteKey s j"
  by (auto simp: update_def updateFiles_remoteKey_other split: if_splits option.splits)

lemma replace_changes: "replace s cid fs = Inr s' \<Longrightarrow> changes s' = changes s"
  by (auto simp: replace_def Let_def fold_recalc_frame dest: update_changes)

lemma replace_globalVersion: "replace s cid fs = Inr s' \<Longrightarrow> globalVersion s' = globalVersion s"
  by (auto simp: replace_def Let_def fold_recalc_frame dest: update_globalVersion)

lemma replace_remoteKey_other:
  "replace s cid fs = Inr s' \<Longrightarrow> j \<noteq> cid \<Longrightarrow> remoteKey s' j = remoteKey s j"
  by (auto simp: replace_def Let_def fold_recalc_frame dest: update_remoteKey_other)

text \<open>The internal replace returns for every index the array has: it allocates the peer's map
  before it calls update.\<close>

lemma replace_returns: "cid \<le> 63 \<Longrightarrow> \<exists>s'. replace s cid fs = Inr s'"
  by (simp add: replace_def Let_def update_def fold_recalc_frame)

lemma Replace_returns: "ident \<le> 63 \<Longrightarrow> \<exists>s'. Replace s ident fs = Inr s'"
  using replace_returns[of ident "bumpChanges ident s" fs] by (auto simp: Replace_def)

lemma ReplaceWithDelete_returns:
  "ident \<le> 63 \<Longrightarrow> \<exists>s' c'. ReplaceWithDelete s c ident fs = Inr (s', c')"
proof -
  assume le: "ident \<le> 63"
  let ?s1 = "bumpChanges ident s"
  let ?r = "deletedFiles ?s1 (Name ` set fs) (map snd (peerIndex ?s1 LocalID)) c"
  from replace_returns[OF le, of ?s1 "fs @ fst ?r"]
  obtain s' where "replace ?s1 ident (fs @ fst ?r) = Inr s'" by blast
  with le show ?thesis by (auto simp: ReplaceWithDelete_def Let_def)
qed

lemma Update_returns:
  "ident \<le> 63 \<Longrightarrow> remoteKey s ident \<noteq> None \<Longrightarrow> \<exists>s'. Update s ident fs = Inr s'"
  by (auto simp: Update_def update_def)

section \<open>The frame of a mutation\<close>

text \<open>
  C10. For distinct peer ids \<open>i\<close> and \<open>j\<close>, a call of Replace, ReplaceWithDelete or Update
  for peer \<open>i\<close> that returns leaves the index map of peer \<open>j\<close> and the counter
  \<open>changes[j]\<close> as they were; and for \<open>i\<close> in 0..63 Replace and ReplaceWithDelete do return,
  as does Update once peer \<open>i\<close> has had its first Replace.
\<close>

theorem frame_other_peer:
  assumes "i \<noteq> j"
  shows "(\<forall>s'. Replace s i fs = Inr s' \<longrightarrow>
            remoteKey s' j = remoteKey s j \<and> changes s' j = changes s j) \<and>
         (\<forall>s' c'. ReplaceWithDelete s c i fs = Inr (s', c') \<longrightarrow>
            remoteKey s' j = remoteKey s j \<and> changes s' j = changes s j) \<and>
         (\<forall>s'. Update s i fs = Inr s' \<longrightarrow>
            remoteKey s' j = remoteKey s j \<and> changes s' j = changes s j) \<and>
         (i \<le> 63 \<longrightarrow> (\<exists>s'. Replace s i fs = Inr s') \<and>
            (\<exists>s' c'. ReplaceWithDelete s c i fs = Inr (s', c'))) \<and>
         (i \<le> 63 \<and> remoteKey s i \<noteq> None \<longrightarrow> (\<exists>s'. Update s i fs = Inr s'))"
proof (intro conjI allI impI)
  fix s' assume "Replace s i fs = Inr s'"
  then have "s' = s \<or> replace (bumpChanges i s) i fs = Inr s'"
    by (auto simp: Replace_def split: if_splits)
  then show "remoteKey s' j = remoteKey s j" "changes s' j = changes s j"
    using assms replace_changes[of "bumpChanges i s" i fs s']
      replace_remoteKey_other[of "bumpChanges i s" i fs s' j]
    by (auto simp: bumpChanges_def)
next
  fix s' c' assume "ReplaceWithDelete s c i fs = Inr (s', c')"
  then have "s' = s \<or> (\<exists>fs'. replace (bumpChanges i s) i fs' = Inr s')"
    by (auto simp: ReplaceWithDelete_def Let_def split: if_splits sum.splits)
  then show "remoteKey s' j = remoteKey s j" "changes s' j = changes s j"
    using assms replace_changes[of "bumpChanges i s" i _ s']
      replace_remoteKey_other[of "bumpChanges i s" i _ s' j]
    by (auto simp: bumpChanges_def)
next
  fix s' assume "Update s i fs = Inr s'"
  then obtain s1 where "update s i fs = Inr s1" "s' = bumpChanges i s1"
    by (auto simp: Update_def split: sum.splits)
  then show "remoteKey s' j = remoteKey s j" "changes s' j = changes s j"
    using assms update_changes[of s i fs s1] update_remoteKey_other[of s i fs s1 j]
    by (auto simp: bumpChanges_def)
next
  assume "i \<le> 63"
  then show "\<exists>s'. Replace s i fs = Inr s'" "\<exists>s' c'. ReplaceWithDelete s c i fs = Inr (s', c')"
    by (rule Replace_returns, rule ReplaceWithDelete_returns)
next
  assume "i \<le> 63 \<and> remoteKey s i \<noteq> None"
  then show "\<exists>s'. Update s i fs = Inr s'" by (simp add: Update_returns)
qed

text \<open>Peer 1 holds b@3; peer 0 then replaces its own list by a@5 and updates it to a@6.\<close>

theorem frame_other_peer_witness:
  "\<exists>s1 s2 s3. Replace NewSet 1 [mkFile ''b'' 3] = Inr s1 \<and>
     Replace s1 0 [mkFile ''a'' 5] = Inr s2 \<and>
     Update s2 0 [mkFile ''a'' 6] = Inr s3 \<and>
     remoteKey s1 1 = Some [(''b'', \<lparr>KName = ''b'', KVersion = 3\<rparr>)] \<and>
     remoteKey s2 1 = remoteKey s1 1 \<and> changes s2 1 = changes s1 1 \<and>
     remoteKey s3 1 = remoteKey s1 1 \<and> changes s3 1 = changes s1 1 \<and>
     changes s1 1 = 1"
proof -
  obtain s1 where s1: "Replace NewSet 1 [mkFile ''b'' 3] = Inr s1"
    using Replace_returns[of 1] by auto
  have ne: "(0::nat) \<noteq> 1" by simp
  note fr2 = frame_other_peer[OF ne, of s1 "[mkFile ''a'' 5]" 0]
  from fr2 obtain s2 where s2: "Replace s1 0 [mkFile ''a'' 5] = Inr s2"
    by auto
  with fr2 have f2: "remoteKey s2 1 = remoteKey s1 1" "changes s2 1 = changes s1 1"
    by blast+
  have "case Replace NewSet 1 [mkFile ''b'' 3] of
          Inr s \<Rightarrow> (case Replace s 0 [mkFile ''a'' 5] of
                      Inr t \<Rightarrow> remoteKey t 0 \<noteq> None | Inl e \<Rightarrow> False)
        | Inl e \<Rightarrow> False"
    by code_simp
  with s1 s2 have some: "remoteKey s2 0 \<noteq> None"
    by simp
  note fr3 = frame_other_peer[OF ne, of s2 "[mkFile ''a'' 6]" 0]
  from fr3 some obtain s3 where s3: "Update s2 0 [mkFile ''a'' 6] = Inr s3"
    by auto
  with fr3 have f3: "remoteKey s3 1 = remoteKey s2 1" "changes s3 1 = changes s2 1"
    by blast+
  have "case Replace NewSet 1 [mkFile ''b'' 3] of
          Inr s \<Rightarrow> remoteKey s 1 = Some [(''b'', \<lparr>KName = ''b'', KVersion = 3\<rparr>)] \<and> changes s 1 = 1
        | Inl e \<Rightarrow> False"
    by code_simp
  with s1 have "remoteKey s1 1 = Some [(''b'', \<lparr>KName = ''b'', KVersion = 3\<rparr>)]" "changes s1 1 = 1"
    by simp_all
  with s1 s2 s3 f2 f3 show ?thesis by simp
qed

section \<open>Sample runs\<close>

lemma onceReplaced_Inr: "Replace NewSet 0 [mkFile ''a'' 1] = Inr onceReplaced"
  using Replace_returns[of 0 NewSet "[mkFile ''a'' 1]"] by (auto simp: onceReplaced_def)

lemma onceReplaced_allocated: "remoteKey onceReplaced 0 \<noteq> None"
  by code_simp

lemma thenUpdated_Inr: "Update onceReplaced 0 [mkFile ''a'' 2] = Inr thenUpdated"
  using Update_returns[OF _ onceReplaced_allocated, of "[mkFile ''a'' 2]"]
  by (auto simp: thenUpdated_def)

lemma equals_onceReplaced: "equals onceReplaced 0 [mkFile ''a'' 1]"
  by code_simp

section \<open>The change counter of Replace\<close>

text \<open>
  C4, as the claim states it, fails: the second \<open>Replace(0, [a@1])\<close> has a non-empty list, and
  the counter stays (the list equals the current view).
\<close>

theorem Replace_nonempty_counterexample:
  "Replace NewSet 0 [mkFile ''a'' 1] = Inr onceReplaced \<and>
   Replace onceReplaced 0 [mkFile ''a'' 1] = Inr onceReplaced \<and>
   \<not> (changes onceReplaced 0 = changes onceReplaced 0 + 1 \<longleftrightarrow>
        [mkFile ''a'' 1] \<noteq> [] \<or> \<not> equals onceReplaced 0 [mkFile ''a'' 1])"
  using onceReplaced_Inr equals_onceReplaced by (simp add: Replace_def)

text \<open>
  C4, amended. For a peer id in 0..63, \<open>Replace(peer, files)\<close> returns, and it increments
  \<open>changes[peer]\<close> by exactly one if and only if the list is empty or equals(peer, files) is
  false; when the list is non-empty and equals holds, the call leaves the whole in-memory state
  as it was.
\<close>

theorem Replace_counts_changes:
  assumes "ident \<le> 63"
  shows "\<exists>s'. Replace s ident fs = Inr s' \<and>
           (changes s' ident = changes s ident + 1 \<longleftrightarrow> fs = [] \<or> \<not> equals s ident fs) \<and>
           (fs \<noteq> [] \<and> equals s ident fs \<longrightarrow> s' = s)"
proof (cases "fs = [] \<or> \<not> equals s ident fs")
  case True
  from replace_returns[OF assms, of "bumpChanges ident s" fs]
  obtain s' where r: "replace (bumpChanges ident s) ident fs = Inr s'" by blast
  from replace_changes[OF r] have "changes s' ident = changes s ident + 1"
    by (simp add: bumpChanges_def)
  with r True assms show ?thesis by (auto simp: Replace_def)
next
  case False
  then show ?thesis using assms by (auto simp: Replace_def)
qed

text \<open>After \<open>Replace(0, [a@1])\<close> the counter is 1; a@2 differs and makes it 2, the empty list
  makes it 2 as well, and a@1 again leaves it at 1.\<close>

theorem Replace_counts_changes_witness:
  "(0::nat) \<le> 63 \<and> changes onceReplaced 0 = 1 \<and>
   (\<exists>s'. Replace onceReplaced 0 [mkFile ''a'' 2] = Inr s' \<and> changes s' 0 = 2) \<and>
   (\<exists>s'. Replace onceReplaced 0 [] = Inr s' \<and> changes s' 0 = 2) \<and>
   (\<exists>s'. Replace onceReplaced 0 [mkFile ''a'' 1] = Inr s' \<and> changes s' 0 = 1 \<and> s' = onceReplaced)"
proof -
  have le: "(0::nat) \<le> 63" by simp
  have c: "changes onceReplaced 0 = 1" by code_simp
  have ne: "\<not> equals onceReplaced 0 [mkFile ''a'' 2]" by code_simp
  from Replace_counts_changes[OF le, of onceReplaced "[mkFile ''a'' 2]"] ne c
  have 1: "\<exists>s'. Replace onceReplaced 0 [mkFile ''a'' 2] = Inr s' \<and> changes s' 0 = 2" by auto
  from Replace_counts_changes[OF le, of onceReplaced "[]"] c
  have 2: "\<exists>s'. Replace onceReplaced 0 [] = Inr s' \<and> changes s' 0 = 2" by auto
  from Replace_counts_changes[OF le, of onceReplaced "[mkFile ''a'' 1]"] equals_onceReplaced c
  have 3: "\<exists>s'. Replace onceReplaced 0 [mkFile ''a'' 1] = Inr s' \<and> changes s' 0 = 1 \<and>
             s' = onceReplaced" by auto
  from le c 1 2 3 show ?thesis by blast
qed

section \<open>The map globalVersion\<close>

text \<open>
  C3, as the claim states it, fails: after \<open>Replace(0, [a@1])\<close> on a new set the name a is in
  globalKey and is not in globalVersion.
\<close>

theorem globalVersion_counterexample:
  "Replace NewSet 0 [mkFile ''a'' 1] = Inr onceReplaced \<and>
   map_of (globalKey onceReplaced) ''a'' = Some \<lparr>KName = ''a'', KVersion = 1\<rparr> \<and>
   map_of (globalVersion onceReplaced) ''a'' = None"
proof -
  have "map_of (globalKey onceReplaced) ''a'' = Some \<lparr>KName = ''a'', KVersion = 1\<rparr> \<and>
        map_of (globalVersion onceReplaced) ''a'' = None"
    by code_simp
  with onceReplaced_Inr show ?thesis by simp
qed

text \<open>
  C3, amended. No mutation writes globalVersion: NewSet creates it empty, and Replace,
  ReplaceWithDelete and Update return it as it was. (The version of the global view of a name is
  the version component of its entry in globalKey.)
\<close>

theorem globalVersion_never_written:
  "globalVersion NewSet = [] \<and>
   (\<forall>s'. Replace s i fs = Inr s' \<longrightarrow> globalVersion s' = globalVersion s) \<and>
   (\<forall>s' c'. ReplaceWithDelete s c i fs = Inr (s', c') \<longrightarrow> globalVersion s' = globalVersion s) \<and>
   (\<forall>s'. Update s i fs = Inr s' \<longrightarrow> globalVersion s' = globalVersion s)"
proof (intro conjI allI impI)
  show "globalVersion NewSet = []" by (simp add: NewSet_def)
next
  fix s' assume "Replace s i fs = Inr s'"
  then have "s' = s \<or> replace (bumpChanges i s) i fs = Inr s'"
    by (auto simp: Replace_def split: if_splits)
  then show "globalVersion s' = globalVersion s"
    using replace_globalVersion[of "bumpChanges i s" i fs s']
    by (auto simp: bumpChanges_def)
next
  fix s' c' assume "ReplaceWithDelete s c i fs = Inr (s', c')"
  then have "s' = s \<or> (\<exists>fs'. replace (bumpChanges i s) i fs' = Inr s')"
    by (auto simp: ReplaceWithDelete_def Let_def split: if_splits sum.splits)
  then show "globalVersion s' = globalVersion s"
    using replace_globalVersion[of "bumpChanges i s" i _ s']
    by (auto simp: bumpChanges_def)
next
  fix s' assume "Update s i fs = Inr s'"
  then obtain s1 where "update s i fs = Inr s1" "s' = bumpChanges i s1"
    by (auto simp: Update_def split: sum.splits)
  then show "globalVersion s' = globalVersion s"
    using update_globalVersion[of s i fs s1]
    by (auto simp: bumpChanges_def)
qed

text \<open>Through \<open>Replace(0, [a@1])\<close> and \<open>Update(0, [a@2])\<close> the map stays empty.\<close>

theorem globalVersion_never_written_witness:
  "Replace NewSet 0 [mkFile ''a'' 1] = Inr onceReplaced \<and> globalVersion onceReplaced = [] \<and>
   Update onceReplaced 0 [mkFile ''a'' 2] = Inr thenUpdated \<and> globalVersion thenUpdated = [] \<and>
   map_of (globalKey thenUpdated) ''a'' = Some \<lparr>KName = ''a'', KVersion = 2\<rparr>"
proof -
  have 1: "globalVersion onceReplaced = []"
    using globalVersion_never_written[of NewSet 0 "[mkFile ''a'' 1]"] onceReplaced_Inr by simp
  have 2: "globalVersion thenUpdated = []"
    using globalVersion_never_written[of onceReplaced 0 "[mkFile ''a'' 2]"] thenUpdated_Inr 1
    by simp
  have 3: "map_of (globalKey thenUpdated) ''a'' = Some \<lparr>KName = ''a'', KVersion = 2\<rparr>"
    by code_simp
  from 1 2 3 onceReplaced_Inr thenUpdated_Inr show ?thesis by simp
qed

section \<open>Usage counting\<close>

text \<open>
  C1 at \<open>Replace(0, [a@1])\<close> followed by \<open>Update(0, [a@2])\<close>: update overwrites the entry of
  peer 0 for a and leaves the usage of a@1 alone, so the record of a@1 stays in files with usage 1
  while no peer index has a@1 as a value; the record of a@2 has usage 1 and one reference.
\<close>

theorem Update_leaves_orphan:
  "Replace NewSet 0 [mkFile ''a'' 1] = Inr onceReplaced \<and>
   Update onceReplaced 0 [mkFile ''a'' 2] = Inr thenUpdated \<and>
   map_of (files thenUpdated) \<lparr>KName = ''a'', KVersion = 1\<rparr> =
     Some \<lparr>File = mkFile ''a'' 1, Usage = 1, Global = False\<rparr> \<and>
   refCount thenUpdated \<lparr>KName = ''a'', KVersion = 1\<rparr> = 0 \<and>
   map_of (files thenUpdated) \<lparr>KName = ''a'', KVersion = 2\<rparr> =
     Some \<lparr>File = mkFile ''a'' 2, Usage = 1, Global = True\<rparr> \<and>
   refCount thenUpdated \<lparr>KName = ''a'', KVersion = 2\<rparr> = 1"
proof -
  have "map_of (files thenUpdated) \<lparr>KName = ''a'', KVersion = 1\<rparr> =
          Some \<lparr>File = mkFile ''a'' 1, Usage = 1, Global = False\<rparr> \<and>
        refCount thenUpdated \<lparr>KName = ''a'', KVersion = 1\<rparr> = 0 \<and>
        map_of (files thenUpdated) \<lparr>KName = ''a'', KVersion = 2\<rparr> =
          Some \<lparr>File = mkFile ''a'' 2, Usage = 1, Global = True\<rparr> \<and>
        refCount thenUpdated \<lparr>KName = ''a'', KVersion = 2\<rparr> = 1"
    by code_simp
  with onceReplaced_Inr thenUpdated_Inr show ?thesis by simp
qed

section \<open>NewNodeID\<close>

text \<open>Where the capacity suffices, Sum does write into the array: with \<open>n[:0]\<close> the array
  would hold the digest.\<close>

lemma hashSum_in_place:
  "length digest = 32 \<Longrightarrow> length backing = 32 \<Longrightarrow> fst (hashSum digest backing 0) = digest"
  by (simp add: hashSum_def goAppend_def)

text \<open>
  C7 at every input: \<open>hf.Sum(n[:])\<close> appends the digest to a slice that is already full, so the
  array \<open>n\<close> is not written and NewNodeID returns 32 zero bytes, whatever the certificate; that
  is the digest only if the digest is itself all zero (for a digest of the 32 bytes SHA-256
  gives).
\<close>

theorem NewNodeID_all_zero:
  "NewNodeID sha256 rawCert = replicate 32 0 \<and>
   (length (sha256 rawCert) = 32 \<and> NewNodeID sha256 rawCert = sha256 rawCert
      \<longleftrightarrow> sha256 rawCert = replicate 32 0)"
  by (auto simp: NewNodeID_def hashSum_def goAppend_def Let_def)

section \<open>Walk and the base directory\<close>

text \<open>
  C9, as the claim states it, fails: the base directory passes the first check, the passes
  collect the file a@1, and the directory is gone at the second check; Walk returns the error
  together with the list of one file.
\<close>

theorem Walk_partial_result_counterexample:
  "wErr (Walk ''d'' (LstatInfo True) ([mkFile ''a'' 1], []) (LstatError ''lstat d: no such file or directory''))
     = Some ''lstat d: no such file or directory'' \<and>
   wFiles (Walk ''d'' (LstatInfo True) ([mkFile ''a'' 1], []) (LstatError ''lstat d: no such file or directory''))
     = [mkFile ''a'' 1]"
  by (simp add: Walk_def checkDir_def)

text \<open>
  C9, amended. Walk returns a non-nil error exactly when one of the two checks of the base
  directory fails. When the check before the passes fails, the file list and the ignore map are
  nil. When that check succeeds, Walk returns what the passes collected, together with the
  result of the check after the passes, error or not.
\<close>

theorem Walk_base_directory:
  "(wErr (Walk dir before passes after) \<noteq> None \<longleftrightarrow>
      checkDir dir before \<noteq> None \<or> checkDir dir after \<noteq> None) \<and>
   (checkDir dir before \<noteq> None \<longrightarrow>
      Walk dir before passes after = \<lparr>wFiles = [], wIgnore = None, wErr = checkDir dir before\<rparr>) \<and>
   (checkDir dir before = None \<longrightarrow>
      Walk dir before passes after =
        \<lparr>wFiles = fst passes, wIgnore = Some (snd passes), wErr = checkDir dir after\<rparr>)"
  by (auto simp: Walk_def split: option.splits)

text \<open>The base is a regular file at the first check; and the base is a directory at both.\<close>

theorem Walk_base_directory_witness:
  "checkDir ''d'' (LstatInfo False) \<noteq> None \<and>
   Walk ''d'' (LstatInfo False) ([mkFile ''a'' 1], []) (LstatInfo True) =
     \<lparr>wFiles = [], wIgnore = None, wErr = Some ''d: not a directory''\<rparr> \<and>
   checkDir ''d'' (LstatInfo True) = None \<and>
   Walk ''d'' (LstatInfo True) ([mkFile ''a'' 1], []) (LstatInfo True) =
     \<lparr>wFiles = [mkFile ''a'' 1], wIgnore = Some [], wErr = None\<rparr>"
  using Walk_base_directory[of "''d''" "LstatInfo False" "([mkFile ''a'' 1], [])" "LstatInfo True"]
    Walk_base_directory[of "''d''" "LstatInfo True" "([mkFile ''a'' 1], [])" "LstatInfo True"]
  by (simp add: checkDir_def)

section \<open>Need\<close>

lemma needed_iff:
  "needed s ident (k, r) \<longleftrightarrow>
     Global r \<and> \<not> Suppressed (File r) \<and>
     (case map_of (peerIndex s ident) (KName k) of
        None \<Rightarrow> 0 < KVersion k \<and> \<not> IsDeleted (Flags (File r))
      | Some rk \<Rightarrow> KVersion rk < KVersion k \<and>
          \<not> (IsDeleted (Flags (File r)) \<and> IsDeleted (Flags (File (getRecord (files s) rk)))))"
  by (auto simp: needed_def getKey_def newerThan_def zeroKey_def split: option.splits)

lemma emptyNameA_Inr: "Replace NewSet 0 [mkFile [] 1] = Inr emptyNameA"
  using Replace_returns[of 0 NewSet "[mkFile [] 1]"] by (auto simp: emptyNameA_def)

lemma emptyNameB_Inr: "Replace emptyNameA 1 [mkFile [] 0] = Inr emptyNameB"
  using Replace_returns[of 1 emptyNameA "[mkFile [] 0]"] by (auto simp: emptyNameB_def)

lemma emptyNameC_Inr: "Replace emptyNameB 0 [] = Inr emptyNameC"
  using Replace_returns[of 0 emptyNameB "[]"] by (auto simp: emptyNameC_def)

text \<open>
  C5, as the claim states it, fails. After \<open>Replace(0, [""@1])\<close>, \<open>Replace(1, [""@0])\<close> and
  \<open>Replace(0, [])\<close> the one record of files is that of the key (empty name, version 0): marked
  global, not suppressed, not deleted. Peer 2 has no entry for the name, which the claim counts
  as older; the code compares with the zero key of version 0, and \<open>Need(2)\<close> is empty.
\<close>

theorem Need_version_zero_counterexample:
  "Replace NewSet 0 [mkFile [] 1] = Inr emptyNameA \<and>
   Replace emptyNameA 1 [mkFile [] 0] = Inr emptyNameB \<and>
   Replace emptyNameB 0 [] = Inr emptyNameC \<and>
   files emptyNameC = [(\<lparr>KName = [], KVersion = 0\<rparr>,
      \<lparr>File = mkFile [] 0, Usage = 1, Global = True\<rparr>)] \<and>
   Suppressed (mkFile [] 0) = False \<and> IsDeleted (Flags (mkFile [] 0)) = False \<and>
   remoteKey emptyNameC 2 = None \<and>
   Need emptyNameC 2 = Inr []"
proof -
  have "files emptyNameC = [(\<lparr>KName = [], KVersion = 0\<rparr>,
          \<lparr>File = mkFile [] 0, Usage = 1, Global = True\<rparr>)] \<and>
        Suppressed (mkFile [] 0) = False \<and> IsDeleted (Flags (mkFile [] 0)) = False \<and>
        remoteKey emptyNameC 2 = None \<and>
        Need emptyNameC 2 = Inr []"
    by code_simp
  with emptyNameA_Inr emptyNameB_Inr emptyNameC_Inr show ?thesis by simp
qed

text \<open>
  C5, amended. For a peer id in 0..63, \<open>Need(peer)\<close> returns, with one element for every record
  of files that is needed, and a file is in it exactly when it is the file of a record marked
  global and not suppressed whose key has a greater version than the key the peer holds for the
  key's name, an absent entry counting as the zero key of version 0; except that a global with
  the Deleted flag is left out when the peer has no entry for the name or the record of its
  entry has the Deleted flag as well. A record whose key is the peer's entry for its name is
  never needed. The order of the result is that of the iteration over files.
\<close>

theorem Need_exact:
  assumes "ident \<le> 63"
  shows "\<exists>out. Need s ident = Inr out \<and>
     (\<forall>f. f \<in> set out \<longleftrightarrow>
        (\<exists>k r. (k, r) \<in> set (files s) \<and> File r = f \<and> Global r \<and> \<not> Suppressed f \<and>
           (case map_of (peerIndex s ident) (KName k) of
              None \<Rightarrow> 0 < KVersion k \<and> \<not> IsDeleted (Flags f)
            | Some rk \<Rightarrow> KVersion rk < KVersion k \<and>
                \<not> (IsDeleted (Flags f) \<and> IsDeleted (Flags (File (getRecord (files s) rk))))))) \<and>
     length out = length (filter (needed s ident) (files s)) \<and>
     (\<forall>k r. map_of (peerIndex s ident) (KName k) = Some k \<longrightarrow> \<not> needed s ident (k, r))"
proof -
  have "Need s ident = Inr (map (\<lambda>e. File (snd e)) (filter (needed s ident) (files s)))"
    using assms by (simp add: Need_def)
  moreover have "\<forall>k r. map_of (peerIndex s ident) (KName k) = Some k \<longrightarrow> \<not> needed s ident (k, r)"
    by (simp add: needed_iff)
  moreover have "\<forall>f. f \<in> set (map (\<lambda>e. File (snd e)) (filter (needed s ident) (files s))) \<longleftrightarrow>
        (\<exists>k r. (k, r) \<in> set (files s) \<and> File r = f \<and> Global r \<and> \<not> Suppressed f \<and>
           (case map_of (peerIndex s ident) (KName k) of
              None \<Rightarrow> 0 < KVersion k \<and> \<not> IsDeleted (Flags f)
            | Some rk \<Rightarrow> KVersion rk < KVersion k \<and>
                \<not> (IsDeleted (Flags f) \<and> IsDeleted (Flags (File (getRecord (files s) rk))))))"
    by (force simp: needed_iff image_iff)
  ultimately show ?thesis by simp
qed

text \<open>The three-peer scenario: peer 0 holds a@5 and needs a@7; peer 1 holds a@7 and needs
  nothing; peer 3 holds nothing and needs a@7.\<close>

theorem Need_exact_witness:
  "(0::nat) \<le> 63 \<and>
   Need threePeers 0 = Inr [mkFile ''a'' 7] \<and>
   Need threePeers 1 = Inr [] \<and>
   Need threePeers 3 = Inr [mkFile ''a'' 7] \<and>
   (\<exists>k r. (k, r) \<in> set (files threePeers) \<and> File r = mkFile ''a'' 7 \<and> Global r \<and>
      (case map_of (peerIndex threePeers 0) (KName k) of
         None \<Rightarrow> False | Some rk \<Rightarrow> KVersion rk < KVersion k)) \<and>
   \<not> needed threePeers 1 (\<lparr>KName = ''a'', KVersion = 7\<rparr>,
        \<lparr>File = mkFile ''a'' 7, Usage = 2, Global = True\<rparr>)"
proof -
  have le: "(0::nat) \<le> 63" "(1::nat) \<le> 63" by simp_all
  have ev: "Need threePeers 0 = Inr [mkFile ''a'' 7]" "Need threePeers 1 = Inr []"
    "Need threePeers 3 = Inr [mkFile ''a'' 7]"
    "map_of (peerIndex threePeers 0) ''a'' = Some \<lparr>KName = ''a'', KVersion = 5\<rparr>"
    "map_of (peerIndex threePeers 1) ''a'' = Some \<lparr>KName = ''a'', KVersion = 7\<rparr>"
    by code_simp+
  let ?P = "\<lambda>f. \<exists>k r. (k, r) \<in> set (files threePeers) \<and> File r = f \<and> Global r \<and>
          \<not> Suppressed f \<and>
          (case map_of (peerIndex threePeers 0) (KName k) of
             None \<Rightarrow> 0 < KVersion k \<and> \<not> IsDeleted (Flags f)
           | Some rk \<Rightarrow> KVersion rk < KVersion k \<and>
               \<not> (IsDeleted (Flags f) \<and>
                   IsDeleted (Flags (File (getRecord (files threePeers) rk)))))"
  from Need_exact[OF le(1), of threePeers]
  obtain out where o: "Need threePeers 0 = Inr out" and ch: "\<forall>f. f \<in> set out \<longleftrightarrow> ?P f"
    by blast
  from o ev(1) have "mkFile ''a'' 7 \<in> set out" by auto
  with ch have "?P (mkFile ''a'' 7)" by blast
  then obtain k r where kr: "(k, r) \<in> set (files threePeers)" "File r = mkFile ''a'' 7" "Global r"
    and c: "case map_of (peerIndex threePeers 0) (KName k) of
             None \<Rightarrow> 0 < KVersion k \<and> \<not> IsDeleted (Flags (mkFile ''a'' 7))
           | Some rk \<Rightarrow> KVersion rk < KVersion k \<and>
               \<not> (IsDeleted (Flags (mkFile ''a'' 7)) \<and>
                   IsDeleted (Flags (File (getRecord (files threePeers) rk))))"
    by blast
  have "files threePeers = [(\<lparr>KName = ''a'', KVersion = 5\<rparr>,
           \<lparr>File = mkFile ''a'' 5, Usage = 1, Global = False\<rparr>),
         (\<lparr>KName = ''a'', KVersion = 7\<rparr>, \<lparr>File = mkFile ''a'' 7, Usage = 2, Global = True\<rparr>)]"
    by code_simp
  with kr have "KName k = ''a''" by auto
  with c ev(4) have "case map_of (peerIndex threePeers 0) (KName k) of
         None \<Rightarrow> False | Some rk \<Rightarrow> KVersion rk < KVersion k"
    by simp
  with kr have 1: "\<exists>k r. (k, r) \<in> set (files threePeers) \<and> File r = mkFile ''a'' 7 \<and> Global r \<and>
      (case map_of (peerIndex threePeers 0) (KName k) of
         None \<Rightarrow> False | Some rk \<Rightarrow> KVersion rk < KVersion k)"
    by blast
  from Need_exact[OF le(2), of threePeers] ev(5)
  have 2: "\<not> needed threePeers 1 (\<lparr>KName = ''a'', KVersion = 7\<rparr>,
        \<lparr>File = mkFile ''a'' 7, Usage = 2, Global = True\<rparr>)"
    by auto
  from le ev 1 2 show ?thesis by blast
qed

section \<open>The tombstones of ReplaceWithDelete\<close>

lemma Tick_wraps_or_grows: "fst (Tick v old) = 0 \<or> old < fst (Tick v old)"
proof -
  define m where "m = max v old"
  have le: "old \<le> m" by (simp add: m_def)
  have "m + 1 = 0 \<or> old < m + 1"
  proof (cases "m = - 1")
    case True
    then show ?thesis by simp
  next
    case False
    then have "\<not> m + 1 \<le> m"
      by (simp add: inc_less_eq_self_iff_eq)
    then have "m < m + 1" by (rule linorder_not_le[THEN iffD1])
    with le have "old < m + 1" by (rule order.strict_trans1)
    then show ?thesis ..
  qed
  then show ?thesis by (simp add: Tick_def m_def)
qed

lemma IsDeleted_set: "IsDeleted (fl OR FlagDeleted)"
proof -
  have "(fl OR FlagDeleted) AND FlagDeleted = FlagDeleted"
    by (rule bit_eqI) (auto simp: bit_and_iff bit_or_iff)
  moreover have "FlagDeleted \<noteq> 0"
    by (simp add: FlagDeleted_def)
  ultimately show ?thesis by (simp add: IsDeleted_def)
qed

lemma deletedFiles_files_cong:
  "files s1 = files s \<Longrightarrow> deletedFiles s1 nf cks c = deletedFiles s nf cks c"
  by (induction cks arbitrary: c) (simp_all add: Let_def)

lemma tombstoned_fresh:
  assumes "\<not> IsDeleted (Flags (File (getRecord (files s) ck)))"
  shows "tombstoned s ck ((File (getRecord (files s) ck))\<lparr>Flags := Flags (File (getRecord (files s) ck)) OR FlagDeleted,
            Blocks := [], Size := 0, Version := fst (Tick c (Version (File (getRecord (files s) ck))))\<rparr>)"
proof -
  define cf where "cf = File (getRecord (files s) ck)"
  define f where "f = cf\<lparr>Flags := Flags cf OR FlagDeleted, Blocks := [], Size := 0,
                        Version := fst (Tick c (Version cf))\<rparr>"
  have 1: "IsDeleted (Flags f)" by (simp add: f_def IsDeleted_set)
  have 2: "Blocks f = []" "Size f = 0" by (simp_all add: f_def)
  have v: "Version f = fst (Tick c (Version cf))" by (simp add: f_def)
  then have 3: "\<exists>v. Version f = fst (Tick v (Version cf))" by blast
  have 4: "Version f = 0 \<or> Version cf < Version f"
    unfolding v by (rule Tick_wraps_or_grows)
  have 5: "f = cf\<lparr>Flags := Flags cf OR FlagDeleted, Blocks := [], Size := 0, Version := Version f\<rparr>"
    by (simp add: f_def)
  have nd: "\<not> IsDeleted (Flags cf)" using assms by (simp add: cf_def)
  have "tombstoned s ck f"
    unfolding tombstoned_def Let_def cf_def[symmetric]
    using nd 1 2 3 4 5 by presburger
  then show ?thesis by (simp add: f_def cf_def)
qed

lemma tombstoned_kept:
  assumes "IsDeleted (Flags (File (getRecord (files s) ck)))"
  shows "tombstoned s ck (File (getRecord (files s) ck))"
  using assms by (simp add: tombstoned_def Let_def)

lemma deletedFiles_tombstoned:
  "list_all2 (tombstoned s) (filter (\<lambda>ck. KName ck \<notin> nf) cks) (fst (deletedFiles s nf cks c))"
proof (induction cks arbitrary: c)
  case Nil
  then show ?case by simp
next
  case (Cons ck cks)
  show ?case
  proof (cases "KName ck \<in> nf")
    case True
    then show ?thesis using Cons.IH by simp
  next
    case False
    show ?thesis
    proof (cases "IsDeleted (Flags (File (getRecord (files s) ck)))")
      case True
      then show ?thesis
        using False Cons.IH[of c] tombstoned_kept[OF True] by (simp add: Let_def)
    next
      case del: False
      show ?thesis
        using False del Cons.IH[of "snd (Tick c (Version (File (getRecord (files s) ck))))"]
          tombstoned_fresh[OF del, of c]
        by (simp add: Let_def)
    qed
  qed
qed

lemma localB3_Inr: "Replace NewSet LocalID [mkFile ''b'' 3] = Inr localB3"
  using Replace_returns[of LocalID NewSet "[mkFile ''b'' 3]"]
  by (auto simp: localB3_def LocalID_def)

lemma localB3Deleted_Inr: "ReplaceWithDelete localB3 0 LocalID [] = Inr localB3Deleted"
  using ReplaceWithDelete_returns[of LocalID localB3 0 "[]"]
  by (auto simp: localB3Deleted_def LocalID_def)

lemma localBmax_Inr: "Replace NewSet LocalID [mkFile ''b'' 18446744073709551615] = Inr localBmax"
  using Replace_returns[of LocalID NewSet "[mkFile ''b'' 18446744073709551615]"]
  by (auto simp: localBmax_def LocalID_def)

lemma localBmaxDeleted_Inr: "ReplaceWithDelete localBmax 0 LocalID [] = Inr localBmaxDeleted"
  using ReplaceWithDelete_returns[of LocalID localBmax 0 "[]"]
  by (auto simp: localBmaxDeleted_def LocalID_def)

text \<open>
  C6, as the claim states it, fails where the u64 of the clock wraps around: the local peer holds
  b at version 18446744073709551615, \<open>ReplaceWithDelete(LocalID, [])\<close> ticks the clock past it,
  and the tombstone of b gets version 0, which is not greater than the old version.
\<close>

theorem ReplaceWithDelete_wrap_counterexample:
  "Replace NewSet LocalID [mkFile ''b'' 18446744073709551615] = Inr localBmax \<and>
   ReplaceWithDelete localBmax 0 LocalID [] = Inr localBmaxDeleted \<and>
   files (fst localBmaxDeleted) =
     [(\<lparr>KName = ''b'', KVersion = 0\<rparr>,
       \<lparr>File = \<lparr>Name = ''b'', Version = 0, Flags = FlagDeleted, Modified = 0, Size = 0,
                 Blocks = [], Suppressed = False\<rparr>,
        Usage = 1, Global = False\<rparr>)] \<and>
   \<not> (18446744073709551615 :: u64) < 0"
proof -
  have "files (fst localBmaxDeleted) =
     [(\<lparr>KName = ''b'', KVersion = 0\<rparr>,
       \<lparr>File = \<lparr>Name = ''b'', Version = 0, Flags = FlagDeleted, Modified = 0, Size = 0,
                 Blocks = [], Suppressed = False\<rparr>,
        Usage = 1, Global = False\<rparr>)]"
    by code_simp
  with localBmax_Inr localBmaxDeleted_Inr show ?thesis by simp
qed

text \<open>
  C6, amended. When \<open>ReplaceWithDelete(peer, files)\<close> performs its in-memory mutation (peer in
  0..63, the list empty or not equal to the current view), the list it hands to the internal
  replace is \<open>files\<close> followed by one file for every key of the index of LocalID whose name is
  not a name of \<open>files\<close>, in the order of the iteration: the key's current file unmodified when
  that has the Deleted flag, and otherwise a tombstone of it, with the Deleted flag set, no blocks,
  size 0 and the version a Tick on the old version returns, which is greater than the old version
  unless the u64 wrapped around to 0 (see \<open>tombstoned\<close>).
\<close>

theorem ReplaceWithDelete_tombstones:
  assumes "ident \<le> 63" and "fs = [] \<or> \<not> equals s ident fs"
  shows "\<exists>app c' s'. ReplaceWithDelete s c ident fs = Inr (s', c') \<and>
           replace (bumpChanges ident s) ident (fs @ app) = Inr s' \<and>
           list_all2 (tombstoned s)
             (filter (\<lambda>ck. KName ck \<notin> Name ` set fs) (map snd (peerIndex s LocalID))) app"
proof -
  let ?s1 = "bumpChanges ident s"
  let ?r = "deletedFiles ?s1 (Name ` set fs) (map snd (peerIndex ?s1 LocalID)) c"
  have eq: "?r = deletedFiles s (Name ` set fs) (map snd (peerIndex s LocalID)) c"
    using deletedFiles_files_cong[of "bumpChanges ident s" s]
    by (simp add: bumpChanges_def peerIndex_def)
  obtain s' where r: "replace ?s1 ident (fs @ fst ?r) = Inr s'"
    using replace_returns[OF assms(1)] by blast
  then have "ReplaceWithDelete s c ident fs = Inr (s', snd ?r)"
    using assms by (auto simp: ReplaceWithDelete_def Let_def)
  moreover have "list_all2 (tombstoned s)
      (filter (\<lambda>ck. KName ck \<notin> Name ` set fs) (map snd (peerIndex s LocalID))) (fst ?r)"
    unfolding eq by (rule deletedFiles_tombstoned)
  ultimately show ?thesis using r by blast
qed

text \<open>The scenario of the claim: \<open>ReplaceWithDelete(LocalID, [])\<close> after
  \<open>Replace(LocalID, [b@3])\<close>, the clock at 0, leaves the one record b@4 with the Deleted flag,
  size 0 and no blocks, and the clock at 4.\<close>

theorem ReplaceWithDelete_tombstones_witness:
  "LocalID \<le> 63 \<and> Replace NewSet LocalID [mkFile ''b'' 3] = Inr localB3 \<and>
   ReplaceWithDelete localB3 0 LocalID [] = Inr localB3Deleted \<and>
   (\<exists>f. tombstoned localB3 \<lparr>KName = ''b'', KVersion = 3\<rparr> f \<and>
      replace (bumpChanges LocalID localB3) LocalID [f] = Inr (fst localB3Deleted)) \<and>
   files (fst localB3Deleted) =
     [(\<lparr>KName = ''b'', KVersion = 4\<rparr>,
       \<lparr>File = \<lparr>Name = ''b'', Version = 4, Flags = FlagDeleted, Modified = 0, Size = 0,
                 Blocks = [], Suppressed = False\<rparr>,
        Usage = 1, Global = True\<rparr>)] \<and>
   snd localB3Deleted = 4 \<and> (3::u64) < 4"
proof -
  have le: "LocalID \<le> 63" by (simp add: LocalID_def)
  have ks: "filter (\<lambda>ck. KName ck \<notin> Name ` set ([]::File list)) (map snd (peerIndex localB3 LocalID))
              = [\<lparr>KName = ''b'', KVersion = 3\<rparr>]"
    by code_simp
  from ReplaceWithDelete_tombstones[OF le disjI1[OF refl], of localB3 0]
  obtain app0 c' s' where a: "ReplaceWithDelete localB3 0 LocalID [] = Inr (s', c')"
    "replace (bumpChanges LocalID localB3) LocalID ([] @ app0) = Inr s'"
    "list_all2 (tombstoned localB3)
       (filter (\<lambda>ck. KName ck \<notin> Name ` set ([]::File list)) (map snd (peerIndex localB3 LocalID))) app0"
    by blast
  from a(1) localB3Deleted_Inr have "s' = fst localB3Deleted"
    by (metis fst_conv sum.inject(2))
  with a(2) have app1: "replace (bumpChanges LocalID localB3) LocalID app0 = Inr (fst localB3Deleted)"
    by simp
  from a(3) have app2: "list_all2 (tombstoned localB3) [\<lparr>KName = ''b'', KVersion = 3\<rparr>] app0"
    unfolding ks .
  note app = app1 app2
  from app(2) obtain f where "app0 = [f]" "tombstoned localB3 \<lparr>KName = ''b'', KVersion = 3\<rparr> f"
    by (auto simp: list_all2_Cons1)
  with app(1) have 1: "\<exists>f. tombstoned localB3 \<lparr>KName = ''b'', KVersion = 3\<rparr> f \<and>
      replace (bumpChanges LocalID localB3) LocalID [f] = Inr (fst localB3Deleted)"
    by blast
  have 2: "files (fst localB3Deleted) =
     [(\<lparr>KName = ''b'', KVersion = 4\<rparr>,
       \<lparr>File = \<lparr>Name = ''b'', Version = 4, Flags = FlagDeleted, Modified = 0, Size = 0,
                 Blocks = [], Suppressed = False\<rparr>,
        Usage = 1, Global = True\<rparr>)]" "snd localB3Deleted = 4"
    by code_simp+
  from le localB3_Inr localB3Deleted_Inr 1 2 show ?thesis by simp
qed

section \<open>The textual form of a NodeID\<close>

lemma decode_54: "DecodeString (replicate 54 CHR ''A'') = Inl CorruptInputError"
  by code_simp

lemma decode_52: "DecodeString (replicate 52 CHR ''A'') = Inl CorruptInputError"
  by code_simp

lemma strip_zero_id:
  "stripChar CHR '' '' (stripChar CHR ''-'' (ToUpper (trim ''=''
     ''AAAAAAAAA-AAAAAAAAA-AAAAAAAAA-AAAAAAAAA-AAAAAAAAA-AAAAAAAAA''))) = replicate 54 CHR ''A''"
  by code_simp

lemma strip_52: 
  "stripChar CHR '' '' (stripChar CHR ''-'' (ToUpper (trim ''='' (replicate 52 CHR ''A''))))
     = replicate 52 CHR ''A''"
  by code_simp

text \<open>
  C8 at the NodeID of 32 zero bytes: String gives six groups of nine A (52 characters of base32
  and the two check characters), and UnmarshalText rejects that text, whatever the receiver held,
  with the CorruptInputError of the base32 decoder: it hands the 54 characters, check characters
  included and padding stripped, to StdEncoding.DecodeString before it looks at the length. The
  52 characters without check characters are rejected the same way.
\<close>

theorem UnmarshalText_rejects_String:
  "String (replicate 32 0) =
     Some ''AAAAAAAAA-AAAAAAAAA-AAAAAAAAA-AAAAAAAAA-AAAAAAAAA-AAAAAAAAA'' \<and>
   UnmarshalText n ''AAAAAAAAA-AAAAAAAAA-AAAAAAAAA-AAAAAAAAA-AAAAAAAAA-AAAAAAAAA'' =
     (Some CorruptInputError, n) \<and>
   UnmarshalText n (replicate 52 CHR ''A'') = (Some CorruptInputError, n)"
proof -
  have 1: "String (replicate 32 0) =
     Some ''AAAAAAAAA-AAAAAAAAA-AAAAAAAAA-AAAAAAAAA-AAAAAAAAA-AAAAAAAAA''"
    by code_simp
  have 2: "UnmarshalText n ''AAAAAAAAA-AAAAAAAAA-AAAAAAAAA-AAAAAAAAA-AAAAAAAAA-AAAAAAAAA'' =
     (Some CorruptInputError, n)"
    unfolding UnmarshalText_def Let_def strip_zero_id decode_54 by simp
  have 3: "UnmarshalText n (replicate 52 CHR ''A'') = (Some CorruptInputError, n)"
    unfolding UnmarshalText_def Let_def strip_52 decode_52 by simp
  from 1 2 3 show ?thesis by blast
qed

section \<open>The global view\<close>

lemma getBits_update: "getBits (AList.update n a am) m = (if m = n then a else getBits am m)"
  by (simp add: getBits_def update_conv')

lemma getBits_delete: "getBits (AList.delete n am) m = (if m = n then 0 else getBits am m)"
  by (simp add: getBits_def delete_conv')

lemma bit_availability_one: "bit (push_bit cid 1 :: bitset) i \<longleftrightarrow> i = cid \<and> cid < 64"
  by (auto simp: bit_exp_iff)

lemma globalAt_cong:
  assumes "\<And>i. i < 64 \<Longrightarrow> held s' i n = held s i n"
    and "map_of (globalKey s') n = map_of (globalKey s) n"
    and "Availability s' n = Availability s n"
  shows "globalAt s' n = globalAt s n"
  using assms by (auto simp: globalAt_def split: option.splits)

lemma peerIndex_remoteKey_upd:
  "peerIndex (s\<lparr>remoteKey := (remoteKey s)(cid := Some m)\<rparr>) i = (if i = cid then m else peerIndex s i)"
  by (simp add: peerIndex_def)

lemma updateGlobal_peerIndex: "peerIndex (updateGlobal cid f s) i = peerIndex s i"
  by (simp add: peerIndex_def updateGlobal_frame)

lemma held_updateFile:
  "held (updateFile cid f s) i n =
     (if i = cid \<and> n = Name f then Some (keyFor f) else held s i n)"
  by (auto simp: held_def updateFile_def updateGlobal_frame peerIndex_def update_conv')


lemma globalKey_updateFile_other:
  "m \<noteq> Name f \<Longrightarrow> map_of (globalKey (updateFile cid f s)) m = map_of (globalKey s) m"
  by (auto simp: updateFile_def updateGlobal_def promote_def update_conv' split: option.splits)

lemma Availability_updateFile_other:
  "m \<noteq> Name f \<Longrightarrow> Availability (updateFile cid f s) m = Availability s m"
  by (auto simp: Availability_def updateFile_def updateGlobal_def promote_def getBits_update
      split: option.splits)

lemma updateFile_skip:
  "held s cid (Name f) = Some (keyFor f) \<Longrightarrow> updateFile cid f s = s"
  by (simp add: updateFile_def held_def)

text \<open>The three outcomes of the switch of update, when the entry of the peer changes.\<close>

lemma updateFile_same_global:
  assumes "held s cid (Name f) \<noteq> Some (keyFor f)"
    and "map_of (globalKey s) (Name f) = Some (keyFor f)"
  shows "map_of (globalKey (updateFile cid f s)) (Name f) = Some (keyFor f)"
    and "Availability (updateFile cid f s) (Name f) = Availability s (Name f) OR push_bit cid 1"
  using assms
  by (simp_all add: updateFile_def held_def updateGlobal_def Availability_def getBits_update)

lemma updateFile_promoted:
  assumes "held s cid (Name f) \<noteq> Some (keyFor f)"
    and "case map_of (globalKey s) (Name f) of
           None \<Rightarrow> newerThan (keyFor f) zeroKey
         | Some gk \<Rightarrow> keyFor f \<noteq> gk \<and> newerThan (keyFor f) gk"
  shows "map_of (globalKey (updateFile cid f s)) (Name f) = Some (keyFor f)"
    and "Availability (updateFile cid f s) (Name f) = push_bit cid 1"
  using assms
  by (auto simp: updateFile_def held_def updateGlobal_def promote_def Availability_def
      getBits_update update_conv' split: option.splits)

lemma updateFile_older:
  assumes "held s cid (Name f) \<noteq> Some (keyFor f)"
    and "case map_of (globalKey s) (Name f) of
           None \<Rightarrow> \<not> newerThan (keyFor f) zeroKey
         | Some gk \<Rightarrow> keyFor f \<noteq> gk \<and> \<not> newerThan (keyFor f) gk"
  shows "map_of (globalKey (updateFile cid f s)) (Name f) = map_of (globalKey s) (Name f)"
    and "Availability (updateFile cid f s) (Name f) = Availability s (Name f)"
  using assms
  by (auto simp: updateFile_def held_def updateGlobal_def Availability_def split: option.splits)

lemma updateFile_indexWellFormed:
  assumes "indexWellFormed s" and "Version f \<noteq> 0"
  shows "indexWellFormed (updateFile cid f s)"
  using assms by (auto simp: indexWellFormed_def held_updateFile keyFor_def)


lemma bit_availability_exp: "bit (2 ^ cid :: bitset) i \<longleftrightarrow> i = cid \<and> cid < 64"
  by (auto simp: bit_exp_iff)

lemma key_eqI: "KName a = KName b \<Longrightarrow> KVersion a = KVersion b \<Longrightarrow> a = (b::key)"
  by (cases a, cases b) simp

lemma updateFile_globalAt_name:
  assumes wf: "indexWellFormed s" and g: "globalAt s (Name f)" and cid: "cid < 64"
    and pos: "Version f \<noteq> 0"
    and nb: "\<forall>k. held s cid (Name f) = Some k \<longrightarrow> KVersion k \<le> Version f"
  shows "globalAt (updateFile cid f s) (Name f)"
proof (cases "held s cid (Name f) = Some (keyFor f)")
  case True
  then show ?thesis using g by (simp add: updateFile_skip)
next
  case ch: False
  let ?n = "Name f" and ?fk = "keyFor f" and ?s' = "updateFile cid f s"
  have h': "\<And>i. held ?s' i ?n = (if i = cid then Some ?fk else held s i ?n)"
    by (simp add: held_updateFile)
  have fkv: "KVersion ?fk = Version f" "KName ?fk = ?n" by (simp_all add: keyFor_def)
  show ?thesis
  proof (cases "map_of (globalKey s) ?n")
    case None
    from g None have none: "\<forall>i<64. held s i ?n = None" by (simp add: globalAt_def)
    have "newerThan ?fk zeroKey"
      using pos by (simp add: newerThan_def zeroKey_def keyFor_def word_neq_0_conv)
    with None have c: "case map_of (globalKey s) ?n of
           None \<Rightarrow> newerThan ?fk zeroKey
         | Some gk \<Rightarrow> ?fk \<noteq> gk \<and> newerThan ?fk gk" by simp
    note G' = updateFile_promoted(1)[OF ch c] and A' = updateFile_promoted(2)[OF ch c]
    show ?thesis
      unfolding globalAt_def G' A' using none cid h'
      by (auto simp: bit_availability_exp)
  next
    case (Some gk)
    from g Some obtain i0 where i0: "i0 < 64" "held s i0 ?n = Some gk"
      and mx: "\<forall>i<64. \<forall>k. held s i ?n = Some k \<longrightarrow> KVersion k \<le> KVersion gk"
      and bits: "\<forall>i. bit (Availability s ?n) i \<longleftrightarrow> i < 64 \<and> held s i ?n = Some gk"
      by (auto simp: globalAt_def)
    from wf i0 have gkn: "KName gk = ?n" by (auto simp: indexWellFormed_def)
    consider (same) "?fk = gk" | (newer) "?fk \<noteq> gk" "newerThan ?fk gk"
      | (older) "?fk \<noteq> gk" "\<not> newerThan ?fk gk" by blast
    then show ?thesis
    proof cases
      case same
      with Some have e: "map_of (globalKey s) ?n = Some ?fk" by simp
      note G' = updateFile_same_global(1)[OF ch e] and A' = updateFile_same_global(2)[OF ch e]
      have 1: "\<exists>i<64. held ?s' i ?n = Some ?fk" using cid h' by auto
      have 2: "\<forall>i<64. \<forall>k. held ?s' i ?n = Some k \<longrightarrow> KVersion k \<le> KVersion ?fk"
        using mx same h' by auto
      have 3: "\<forall>i. bit (Availability s ?n OR push_bit cid 1) i \<longleftrightarrow> i < 64 \<and> held ?s' i ?n = Some ?fk"
        using bits same h' cid by (auto simp: bit_or_iff bit_availability_one bit_availability_exp)
      show ?thesis unfolding globalAt_def G' A' using 1 2 3 by simp
    next
      case newer
      with Some have c: "case map_of (globalKey s) ?n of
           None \<Rightarrow> newerThan ?fk zeroKey
         | Some gk \<Rightarrow> ?fk \<noteq> gk \<and> newerThan ?fk gk" by simp
      note G' = updateFile_promoted(1)[OF ch c] and A' = updateFile_promoted(2)[OF ch c]
      from newer have lt: "KVersion gk < KVersion ?fk" by (simp add: newerThan_def)
      have 1: "\<exists>i<64. held ?s' i ?n = Some ?fk" using cid h' by auto
      have 2: "\<forall>i<64. \<forall>k. held ?s' i ?n = Some k \<longrightarrow> KVersion k \<le> KVersion ?fk"
      proof (intro allI impI)
        fix i k assume "i < 64" "held ?s' i ?n = Some k"
        then have "k = ?fk \<or> KVersion k \<le> KVersion gk" using mx h' by (auto split: if_splits)
        with lt show "KVersion k \<le> KVersion ?fk" by auto
      qed
      have 3: "\<forall>i. bit (push_bit cid 1 :: bitset) i \<longleftrightarrow> i < 64 \<and> held ?s' i ?n = Some ?fk"
      proof
        fix i
        show "bit (push_bit cid 1 :: bitset) i \<longleftrightarrow> i < 64 \<and> held ?s' i ?n = Some ?fk"
        proof (cases "i = cid")
          case True
          then show ?thesis using cid h' by (simp add: bit_availability_one bit_availability_exp)
        next
          case False
          have "\<not> (i < 64 \<and> held s i ?n = Some ?fk)"
          proof
            assume "i < 64 \<and> held s i ?n = Some ?fk"
            with mx have "KVersion ?fk \<le> KVersion gk" by blast
            with lt show False by simp
          qed
          with False show ?thesis using h' by (simp add: bit_availability_one bit_availability_exp)
        qed
      qed
      show ?thesis unfolding globalAt_def G' A' using 1 2 3 by simp
    next
      case older
      with Some have c: "case map_of (globalKey s) ?n of
           None \<Rightarrow> \<not> newerThan ?fk zeroKey
         | Some gk \<Rightarrow> ?fk \<noteq> gk \<and> \<not> newerThan ?fk gk" by simp
      have G': "map_of (globalKey ?s') ?n = Some gk"
        using updateFile_older(1)[OF ch c] Some by simp
      note A' = updateFile_older(2)[OF ch c]
      from older have le: "KVersion ?fk \<le> KVersion gk" by (simp add: newerThan_def)
      have "KVersion ?fk \<noteq> KVersion gk"
        using older(1) gkn fkv key_eqI[of ?fk gk] by auto
      with le have lt: "KVersion ?fk < KVersion gk" by simp
      have notcid: "held s cid ?n \<noteq> Some gk"
      proof
        assume "held s cid ?n = Some gk"
        with nb have "KVersion gk \<le> Version f" by blast
        with lt fkv show False by simp
      qed
      with i0 have "i0 \<noteq> cid" by auto
      with i0 h' have 1: "\<exists>i<64. held ?s' i ?n = Some gk" by auto
      have 2: "\<forall>i<64. \<forall>k. held ?s' i ?n = Some k \<longrightarrow> KVersion k \<le> KVersion gk"
        using mx h' le by (auto split: if_splits)
      have 3: "\<forall>i. bit (Availability s ?n) i \<longleftrightarrow> i < 64 \<and> held ?s' i ?n = Some gk"
        using bits h' notcid older(1) by auto
      show ?thesis unfolding globalAt_def G' A' using 1 2 3 by simp
    qed
  qed
qed

lemma updateFile_globalViewCorrect:
  assumes wf: "indexWellFormed s" and gv: "globalViewCorrect s" and cid: "cid < 64"
    and pos: "Version f \<noteq> 0"
    and nb: "\<forall>k. held s cid (Name f) = Some k \<longrightarrow> KVersion k \<le> Version f"
  shows "globalViewCorrect (updateFile cid f s)"
  unfolding globalViewCorrect_def
proof
  fix m
  show "globalAt (updateFile cid f s) m"
  proof (cases "m = Name f")
    case True
    then show ?thesis
      using updateFile_globalAt_name[OF wf _ cid pos nb] gv by (simp add: globalViewCorrect_def)
  next
    case False
    have "globalAt (updateFile cid f s) m = globalAt s m"
      by (rule globalAt_cong)
        (simp_all add: held_updateFile False globalKey_updateFile_other
          Availability_updateFile_other)
    then show ?thesis using gv by (simp add: globalViewCorrect_def)
  qed
qed


lemma updateFiles_preserves:
  assumes "cid < 64"
  shows "indexWellFormed s \<Longrightarrow> globalViewCorrect s \<Longrightarrow> positiveVersions fs \<Longrightarrow>
         ascendingPerName fs \<Longrightarrow> notBelowHeld s cid fs \<Longrightarrow>
         indexWellFormed (updateFiles cid fs s) \<and> globalViewCorrect (updateFiles cid fs s)"
proof (induction fs arbitrary: s)
  case Nil
  then show ?case by simp
next
  case (Cons f fs)
  let ?s1 = "updateFile cid f s"
  from Cons.prems have pos: "Version f \<noteq> 0" and posr: "positiveVersions fs"
    by (simp_all add: positiveVersions_def)
  from Cons.prems have asc: "\<forall>g \<in> set fs. Name g = Name f \<longrightarrow> Version f \<le> Version g"
    and ascr: "ascendingPerName fs" by simp_all
  from Cons.prems have nb: "\<forall>k. held s cid (Name f) = Some k \<longrightarrow> KVersion k \<le> Version f"
    by (simp add: notBelowHeld_def)
  have wf1: "indexWellFormed ?s1"
    using Cons.prems(1) pos by (rule updateFile_indexWellFormed)
  have gv1: "globalViewCorrect ?s1"
    using Cons.prems(1,2) assms pos nb by (rule updateFile_globalViewCorrect)
  have nb1: "notBelowHeld ?s1 cid fs"
    unfolding notBelowHeld_def
  proof (intro ballI allI impI)
    fix g k assume g: "g \<in> set fs" and h: "held ?s1 cid (Name g) = Some k"
    show "KVersion k \<le> Version g"
    proof (cases "Name g = Name f")
      case True
      with h have "k = keyFor f" by (simp add: held_updateFile)
      then have "KVersion k = Version f" by (simp add: keyFor_def)
      with asc g True show ?thesis by simp
    next
      case False
      with h have "held s cid (Name g) = Some k" by (simp add: held_updateFile)
      with Cons.prems(5) g show ?thesis by (auto simp: notBelowHeld_def)
    qed
  qed
  from Cons.IH[OF wf1 gv1 posr ascr nb1] show ?case by simp
qed

lemma scannedI:
  assumes "\<not> (\<forall>i<m. held s i n = None)"
    and "\<exists>i<m. held s i n = Some nk"
    and "\<forall>i<m. \<forall>k. held s i n = Some k \<longrightarrow> KVersion k \<le> KVersion nk"
    and "\<forall>i. bit na i \<longleftrightarrow> i < m \<and> held s i n = Some nk"
  shows "scanned s n m (nk, na)"
  unfolding scanned_def if_not_P[OF assms(1)] fst_conv snd_conv
  using assms(2-4) by blast

lemma scanned_step:
  assumes wf: "indexWellFormed s" and m: "m < 64" and r: "scanned s n m r"
  shows "scanned s n (Suc m) (newestStep s n m r)"
proof (cases "held s m n")
  case None
  then have st: "newestStep s n m r = r" by (simp add: newestStep_def held_def)
  have a: "(\<forall>i<Suc m. held s i n = None) \<longleftrightarrow> (\<forall>i<m. held s i n = None)"
    using None by (auto simp: less_Suc_eq)
  have b: "\<And>k. (\<exists>i<Suc m. held s i n = Some k) \<longleftrightarrow> (\<exists>i<m. held s i n = Some k)"
    using None by (auto simp: less_Suc_eq)
  have c: "\<And>k i. (i < Suc m \<and> held s i n = Some k) \<longleftrightarrow> (i < m \<and> held s i n = Some k)"
    using None by (auto simp: less_Suc_eq)
  have d: "\<And>k0. (\<forall>i<Suc m. \<forall>k. held s i n = Some k \<longrightarrow> KVersion k \<le> KVersion k0) \<longleftrightarrow>
             (\<forall>i<m. \<forall>k. held s i n = Some k \<longrightarrow> KVersion k \<le> KVersion k0)"
    using None by (auto simp: less_Suc_eq)
  show ?thesis unfolding st using r unfolding scanned_def a b c d .
next
  case (Some rk)
  from wf m Some have rkn: "KName rk = n" and rkv: "KVersion rk \<noteq> 0"
    by (auto simp: indexWellFormed_def)
  have nonempty: "\<not> (\<forall>i<Suc m. held s i n = None)" using Some by auto
  show ?thesis
  proof (cases "\<forall>i<m. held s i n = None")
    case True
    with r have r0: "r = (zeroKey, 0)" by (simp add: scanned_def)
    have "rk \<noteq> zeroKey" using rkv by (auto simp: zeroKey_def)
    moreover have "newerThan rk zeroKey"
      using rkv by (simp add: newerThan_def zeroKey_def word_neq_0_conv)
    ultimately have st: "newestStep s n m r = (rk, push_bit m 1)"
      using Some r0 by (simp add: newestStep_def held_def)
    have 1: "\<exists>i<Suc m. held s i n = Some rk" using Some by auto
    have 2: "\<forall>i<Suc m. \<forall>k. held s i n = Some k \<longrightarrow> KVersion k \<le> KVersion rk"
      using True Some by (auto simp: less_Suc_eq)
    have 3: "\<forall>i. bit (push_bit m 1 :: bitset) i \<longleftrightarrow> i < Suc m \<and> held s i n = Some rk"
      using True Some m by (auto simp: bit_availability_one bit_availability_exp less_Suc_eq)
    show ?thesis unfolding st by (rule scannedI[OF nonempty 1 2 3])
  next
    case False
    with r obtain nk na where rr: "r = (nk, na)"
      and h: "\<exists>i<m. held s i n = Some nk"
      and mx: "\<forall>i<m. \<forall>k. held s i n = Some k \<longrightarrow> KVersion k \<le> KVersion nk"
      and bits: "\<forall>i. bit na i \<longleftrightarrow> i < m \<and> held s i n = Some nk"
      by (cases r) (auto simp: scanned_def)
    from h obtain i1 where i1: "i1 < m" "held s i1 n = Some nk" by blast
    with m have "i1 < 64" by simp
    with wf i1 have nkn: "KName nk = n" unfolding indexWellFormed_def by blast
    consider (same) "rk = nk" | (newer) "rk \<noteq> nk" "newerThan rk nk"
      | (older) "rk \<noteq> nk" "\<not> newerThan rk nk" by blast
    then show ?thesis
    proof cases
      case same
      then have st: "newestStep s n m r = (nk, na OR push_bit m 1)"
        using Some rr by (simp add: newestStep_def held_def)
      have 1: "\<exists>i<Suc m. held s i n = Some nk" using Some same by auto
      have 2: "\<forall>i<Suc m. \<forall>k. held s i n = Some k \<longrightarrow> KVersion k \<le> KVersion nk"
        using mx Some same by (auto simp: less_Suc_eq)
      have 3: "\<forall>i. bit (na OR push_bit m 1) i \<longleftrightarrow> i < Suc m \<and> held s i n = Some nk"
        using bits Some same m
        by (auto simp: bit_or_iff bit_availability_one bit_availability_exp less_Suc_eq)
      show ?thesis unfolding st by (rule scannedI[OF nonempty 1 2 3])
    next
      case newer
      then have st: "newestStep s n m r = (rk, push_bit m 1)"
        using Some rr by (simp add: newestStep_def held_def)
      from newer have lt: "KVersion nk < KVersion rk" by (simp add: newerThan_def)
      have 1: "\<exists>i<Suc m. held s i n = Some rk" using Some by auto
      have 2: "\<forall>i<Suc m. \<forall>k. held s i n = Some k \<longrightarrow> KVersion k \<le> KVersion rk"
      proof (intro allI impI)
        fix i k assume "i < Suc m" "held s i n = Some k"
        then have "k = rk \<or> KVersion k \<le> KVersion nk"
          using mx Some by (auto simp: less_Suc_eq)
        with lt show "KVersion k \<le> KVersion rk" by auto
      qed
      have no: "\<And>i. i < m \<Longrightarrow> held s i n \<noteq> Some rk"
      proof
        fix i assume "i < m" "held s i n = Some rk"
        with mx have "KVersion rk \<le> KVersion nk" by blast
        with lt show False by simp
      qed
      have 3: "\<forall>i. bit (push_bit m 1 :: bitset) i \<longleftrightarrow> i < Suc m \<and> held s i n = Some rk"
        using no Some m by (auto simp: bit_availability_one bit_availability_exp less_Suc_eq)
      show ?thesis unfolding st by (rule scannedI[OF nonempty 1 2 3])
    next
      case older
      then have st: "newestStep s n m r = (nk, na)"
        using Some rr by (simp add: newestStep_def held_def)
      from older have le: "KVersion rk \<le> KVersion nk" by (simp add: newerThan_def)
      have 1: "\<exists>i<Suc m. held s i n = Some nk" using h by (auto simp: less_Suc_eq)
      have 2: "\<forall>i<Suc m. \<forall>k. held s i n = Some k \<longrightarrow> KVersion k \<le> KVersion nk"
        using mx Some le by (auto simp: less_Suc_eq)
      have 3: "\<forall>i. bit na i \<longleftrightarrow> i < Suc m \<and> held s i n = Some nk"
      proof
        fix i
        have "held s m n \<noteq> Some nk" using Some older(1) by simp
        then have "(i < Suc m \<and> held s i n = Some nk) \<longleftrightarrow> (i < m \<and> held s i n = Some nk)"
          by (cases "i = m") (simp_all add: less_Suc_eq)
        with bits show "bit na i \<longleftrightarrow> i < Suc m \<and> held s i n = Some nk" by simp
      qed
      show ?thesis unfolding st by (rule scannedI[OF nonempty 1 2 3])
    qed
  qed
qed

lemma scanned_prefix:
  assumes wf: "indexWellFormed s"
  shows "m \<le> 64 \<Longrightarrow> scanned s n m (fold (newestStep s n) [0..<m] (zeroKey, 0))"
proof (induction m)
  case 0
  then show ?case by (simp add: scanned_def)
next
  case (Suc m)
  then have "scanned s n m (fold (newestStep s n) [0..<m] (zeroKey, 0))" and "m < 64" by simp_all
  from scanned_step[OF wf this(2) this(1)] show ?case by simp
qed

lemma newest_scanned: "indexWellFormed s \<Longrightarrow> scanned s n 64 (newest s n)"
  unfolding newest_def by (rule scanned_prefix) simp_all


lemma held_recalc: "held (recalc n s) i m = held s i m"
  by (simp add: held_def peerIndex_def recalc_frame)

lemma held_fold_recalc: "held (fold recalc ns s) i m = held s i m"
  by (simp add: held_def peerIndex_def fold_recalc_frame)

lemma indexWellFormed_held_cong:
  "(\<And>i n. i < 64 \<Longrightarrow> held s' i n = held s i n) \<Longrightarrow> indexWellFormed s \<Longrightarrow> indexWellFormed s'"
  by (simp add: indexWellFormed_def)

lemma recalc_other:
  "m \<noteq> n \<Longrightarrow> map_of (globalKey (recalc n s)) m = map_of (globalKey s) m"
  "m \<noteq> n \<Longrightarrow> Availability (recalc n s) m = Availability s m"
  by (simp_all add: recalc_def Let_def Availability_def update_conv' delete_conv'
      getBits_update getBits_delete)

lemma recalc_globalAt:
  assumes wf: "indexWellFormed s"
  shows "globalAt (recalc n s) n"
proof -
  obtain nk na where r: "newest s n = (nk, na)" by (cases "newest s n")
  from newest_scanned[OF wf, of n] r have sc: "scanned s n 64 (nk, na)" by simp
  show ?thesis
  proof (cases "\<forall>i<64. held s i n = None")
    case True
    with sc have "na = 0" by (simp add: scanned_def)
    then have "map_of (globalKey (recalc n s)) n = None"
      using r by (simp add: recalc_def Let_def delete_conv')
    then show ?thesis using True by (simp add: globalAt_def held_recalc)
  next
    case False
    with sc have h: "\<exists>i<64. held s i n = Some nk"
      and mx: "\<forall>i<64. \<forall>k. held s i n = Some k \<longrightarrow> KVersion k \<le> KVersion nk"
      and bits: "\<forall>i. bit na i \<longleftrightarrow> i < 64 \<and> held s i n = Some nk"
      unfolding scanned_def by simp_all
    from h bits obtain i where "bit na i" by blast
    then have "na \<noteq> 0" by auto
    then have G': "map_of (globalKey (recalc n s)) n = Some nk"
      and A': "Availability (recalc n s) n = na"
      using r by (simp_all add: recalc_def Let_def update_conv' Availability_def getBits_update)
    show ?thesis unfolding globalAt_def G' A' using h mx bits by (simp add: held_recalc)
  qed
qed

lemma fold_recalc_global:
  "indexWellFormed s \<Longrightarrow>
   (n \<in> set ns \<longrightarrow> globalAt (fold recalc ns s) n) \<and>
   (n \<notin> set ns \<longrightarrow> map_of (globalKey (fold recalc ns s)) n = map_of (globalKey s) n \<and>
                    Availability (fold recalc ns s) n = Availability s n)"
proof (induction ns arbitrary: s)
  case Nil
  then show ?case by simp
next
  case (Cons n0 ns)
  let ?s1 = "recalc n0 s"
  have wf1: "indexWellFormed ?s1"
    using Cons.prems by (rule indexWellFormed_held_cong[rotated]) (simp add: held_recalc)
  note IH = Cons.IH[OF wf1]
  show ?case
  proof (cases "n \<in> set ns")
    case True
    with IH show ?thesis by simp
  next
    case False
    with IH have eq: "map_of (globalKey (fold recalc ns ?s1)) n = map_of (globalKey ?s1) n"
      "Availability (fold recalc ns ?s1) n = Availability ?s1 n" by simp_all
    show ?thesis
    proof (cases "n = n0")
      case True
      have "globalAt (fold recalc ns ?s1) n = globalAt ?s1 n"
        by (rule globalAt_cong) (simp_all add: held_fold_recalc eq)
      with recalc_globalAt[OF Cons.prems, of n0] True show ?thesis by simp
    next
      case neq: False
      with False eq recalc_other[of n n0 s] show ?thesis by simp
    qed
  qed
qed

lemma replace_preserves:
  assumes wf: "indexWellFormed s" and gv: "globalViewCorrect s" and cid: "cid \<le> 63"
    and pos: "positiveVersions fs" and asc: "ascendingPerName fs"
  shows "\<exists>s'. replace s cid fs = Inr s' \<and> indexWellFormed s' \<and> globalViewCorrect s'"
proof -
  define s2 where "s2 = s\<lparr>files := fold release (map snd (peerIndex s cid)) (files s),
                           remoteKey := (remoteKey s)(cid := Some [])\<rparr>"
  define s3 where "s3 = fold recalc (map fst (globalKey s2)) s2"
  have rep: "replace s cid fs = update s3 cid fs"
    by (simp add: replace_def Let_def s3_def s2_def)
  have h2: "\<And>i n. held s2 i n = (if i = cid then None else held s i n)"
    by (simp add: held_def peerIndex_def s2_def)
  have g2: "globalKey s2 = globalKey s" by (simp add: s2_def)
  have wf2: "indexWellFormed s2"
    using wf unfolding indexWellFormed_def h2 by simp
  have h3: "\<And>i n. held s3 i n = held s2 i n" by (simp add: s3_def held_fold_recalc)
  have wf3: "indexWellFormed s3"
    using wf2 by (rule indexWellFormed_held_cong[rotated]) (simp add: h3)
  have gv3: "globalViewCorrect s3"
    unfolding globalViewCorrect_def
  proof
    fix n
    note fr = fold_recalc_global[OF wf2, of n "map fst (globalKey s2)", folded s3_def]
    show "globalAt s3 n"
    proof (cases "n \<in> set (map fst (globalKey s2))")
      case True
      with fr show ?thesis by simp
    next
      case False
      then have none: "map_of (globalKey s) n = None"
        unfolding g2 by (simp add: map_of_eq_None_iff)
      with False fr g2 have "map_of (globalKey s3) n = None" by simp
      moreover from gv have "globalAt s n" by (simp add: globalViewCorrect_def)
      with none have "\<forall>i<64. held s i n = None"
        by (simp add: globalAt_def)
      ultimately show ?thesis by (simp add: globalAt_def h3 h2)
    qed
  qed
  have "remoteKey s3 cid = Some []"
    by (simp add: s3_def fold_recalc_frame s2_def)
  with cid have up: "update s3 cid fs = Inr (updateFiles cid fs s3)"
    by (simp add: update_def)
  have nb: "notBelowHeld s3 cid fs" by (simp add: notBelowHeld_def h3 h2)
  from cid have "cid < 64" by simp
  from updateFiles_preserves[OF this wf3 gv3 pos asc nb] rep up show ?thesis by simp
qed

lemma held_bumpChanges: "held (bumpChanges ident s) i n = held s i n"
  by (simp add: held_def peerIndex_def bumpChanges_def)

lemma bumpChanges_preserves:
  "indexWellFormed s \<Longrightarrow> globalViewCorrect s \<Longrightarrow>
   indexWellFormed (bumpChanges ident s) \<and> globalViewCorrect (bumpChanges ident s)"
proof -
  assume wf: "indexWellFormed s" and gv: "globalViewCorrect s"
  have "indexWellFormed (bumpChanges ident s)"
    using wf by (rule indexWellFormed_held_cong[rotated]) (simp add: held_bumpChanges)
  moreover have "\<And>n. globalAt (bumpChanges ident s) n = globalAt s n"
  proof (rule globalAt_cong)
    fix n i show "held (bumpChanges ident s) i n = held s i n" by (rule held_bumpChanges)
  next
    fix n show "map_of (globalKey (bumpChanges ident s)) n = map_of (globalKey s) n"
      by (simp add: bumpChanges_def)
  next
    fix n show "Availability (bumpChanges ident s) n = Availability s n"
      by (simp add: bumpChanges_def Availability_def)
  qed
  ultimately show ?thesis using gv by (simp add: globalViewCorrect_def)
qed

lemma NewSet_global_view: "indexWellFormed NewSet \<and> globalViewCorrect NewSet"
  by (simp add: indexWellFormed_def globalViewCorrect_def globalAt_def held_def peerIndex_def
      NewSet_def)

text \<open>What a right global view says of a name that some peer holds.\<close>

lemma globalViewCorrectD:
  assumes "globalViewCorrect s" and "i < 64" and "held s i n = Some k"
  shows "\<exists>gk. map_of (globalKey s) n = Some gk \<and> (\<exists>j<64. held s j n = Some gk) \<and>
           KVersion k \<le> KVersion gk \<and>
           (\<forall>j. bit (Availability s n) j \<longleftrightarrow> j < 64 \<and> held s j n = Some gk)"
proof -
  from assms(1) have g: "globalAt s n" by (simp add: globalViewCorrect_def)
  show ?thesis
  proof (cases "map_of (globalKey s) n")
    case None
    with g assms(2,3) show ?thesis by (auto simp: globalAt_def)
  next
    case (Some gk)
    with g assms(2,3) show ?thesis unfolding globalAt_def by auto
  qed
qed

lemma regressA_Inr: "Replace NewSet 0 [mkFile ''a'' 5] = Inr regressA"
  using Replace_returns[of 0 NewSet "[mkFile ''a'' 5]"] by (auto simp: regressA_def)

lemma regressA_allocated: "remoteKey regressA 0 \<noteq> None"
  by code_simp

lemma regressB_Inr: "Update regressA 0 [mkFile ''a'' 3] = Inr regressB"
  using Update_returns[OF _ regressA_allocated, of "[mkFile ''a'' 3]"]
  by (auto simp: regressB_def)

lemma versionZero_Inr: "Replace NewSet 0 [mkFile ''a'' 0] = Inr versionZero"
  using Replace_returns[of 0 NewSet "[mkFile ''a'' 0]"] by (auto simp: versionZero_def)

text \<open>
  C2, as the claim states it, fails in two ways. After \<open>Replace(0, [a@5])\<close> and
  \<open>Update(0, [a@3])\<close> peer 0 holds a@3, while globalKey still has a@5, which no peer holds, and
  the availability still has bit 0. After \<open>Replace(0, [a@0])\<close> on a new set peer 0 holds a@0
  and globalKey has no entry for a: version 0 is the version of the zero key that update compares
  with when the name has no global key.
\<close>

theorem global_view_counterexample:
  "Replace NewSet 0 [mkFile ''a'' 5] = Inr regressA \<and>
   Update regressA 0 [mkFile ''a'' 3] = Inr regressB \<and>
   held regressB 0 ''a'' = Some \<lparr>KName = ''a'', KVersion = 3\<rparr> \<and>
   map_of (globalKey regressB) ''a'' = Some \<lparr>KName = ''a'', KVersion = 5\<rparr> \<and>
   refCount regressB \<lparr>KName = ''a'', KVersion = 5\<rparr> = 0 \<and>
   Availability regressB ''a'' = 1 \<and>
   Replace NewSet 0 [mkFile ''a'' 0] = Inr versionZero \<and>
   held versionZero 0 ''a'' = Some \<lparr>KName = ''a'', KVersion = 0\<rparr> \<and>
   map_of (globalKey versionZero) ''a'' = None"
proof -
  have "held regressB 0 ''a'' = Some \<lparr>KName = ''a'', KVersion = 3\<rparr> \<and>
   map_of (globalKey regressB) ''a'' = Some \<lparr>KName = ''a'', KVersion = 5\<rparr> \<and>
   refCount regressB \<lparr>KName = ''a'', KVersion = 5\<rparr> = 0 \<and>
   Availability regressB ''a'' = 1 \<and>
   held versionZero 0 ''a'' = Some \<lparr>KName = ''a'', KVersion = 0\<rparr> \<and>
   map_of (globalKey versionZero) ''a'' = None"
    by code_simp
  with regressA_Inr regressB_Inr versionZero_Inr show ?thesis by simp
qed

text \<open>
  C2, amended. Let every entry of the peer indices map a name to a key of that name and of a
  version other than 0, and let the global view be right: for every name that some of the 64 peer
  indices holds, globalKey has a key that some peer index holds for the name and that has the
  maximum version over all 64, and the availability has exactly the bits of the peers whose entry
  is that key (and a name no peer holds has no global key). Both stay so after Replace,
  ReplaceWithDelete and Update, provided the list that is folded in (for ReplaceWithDelete: the
  given files followed by the tombstones) has no version 0, brings a name again only with a
  version that is not lower, and, for Update, brings no file with a lower version than the
  calling peer holds for its name. NewSet is such a state.
\<close>

theorem global_view_preserved:
  assumes "indexWellFormed s" and "globalViewCorrect s"
  shows "(ident \<le> 63 \<and> positiveVersions fs \<and> ascendingPerName fs \<longrightarrow>
            (\<exists>s'. Replace s ident fs = Inr s' \<and> indexWellFormed s' \<and> globalViewCorrect s')) \<and>
         (positiveVersions fs \<and> ascendingPerName fs \<and> notBelowHeld s ident fs \<longrightarrow>
            (\<forall>s'. Update s ident fs = Inr s' \<longrightarrow> indexWellFormed s' \<and> globalViewCorrect s')) \<and>
         (ident \<le> 63 \<and> positiveVersions (handedToReplace s c fs) \<and>
            ascendingPerName (handedToReplace s c fs) \<longrightarrow>
            (\<exists>s' c'. ReplaceWithDelete s c ident fs = Inr (s', c') \<and>
               indexWellFormed s' \<and> globalViewCorrect s'))"
proof (intro conjI impI allI)
  assume a: "ident \<le> 63 \<and> positiveVersions fs \<and> ascendingPerName fs"
  show "\<exists>s'. Replace s ident fs = Inr s' \<and> indexWellFormed s' \<and> globalViewCorrect s'"
  proof (cases "fs = [] \<or> \<not> equals s ident fs")
    case True
    from bumpChanges_preserves[OF assms, of ident]
    have "\<exists>s'. replace (bumpChanges ident s) ident fs = Inr s' \<and> indexWellFormed s' \<and>
            globalViewCorrect s'"
      using a by (intro replace_preserves) simp_all
    with True a show ?thesis by (simp add: Replace_def)
  next
    case False
    with a assms show ?thesis by (simp add: Replace_def)
  qed
next
  fix s'
  assume a: "positiveVersions fs \<and> ascendingPerName fs \<and> notBelowHeld s ident fs"
    and u: "Update s ident fs = Inr s'"
  from u have le: "ident < 64" and s': "s' = bumpChanges ident (updateFiles ident fs s)"
    by (auto simp: Update_def update_def split: if_splits option.splits)
  from updateFiles_preserves[OF le assms] a
  have "indexWellFormed (updateFiles ident fs s) \<and> globalViewCorrect (updateFiles ident fs s)"
    by simp
  then show "indexWellFormed s'" "globalViewCorrect s'"
    unfolding s' using bumpChanges_preserves by blast+
next
  assume a: "ident \<le> 63 \<and> positiveVersions (handedToReplace s c fs) \<and>
             ascendingPerName (handedToReplace s c fs)"
  let ?s1 = "bumpChanges ident s"
  let ?r = "deletedFiles ?s1 (Name ` set fs) (map snd (peerIndex ?s1 LocalID)) c"
  have eq: "fs @ fst ?r = handedToReplace s c fs"
    using deletedFiles_files_cong[of "bumpChanges ident s" s]
    by (simp add: handedToReplace_def bumpChanges_def peerIndex_def)
  show "\<exists>s' c'. ReplaceWithDelete s c ident fs = Inr (s', c') \<and>
               indexWellFormed s' \<and> globalViewCorrect s'"
  proof (cases "fs = [] \<or> \<not> equals s ident fs")
    case True
    from bumpChanges_preserves[OF assms, of ident]
    have "\<exists>s'. replace ?s1 ident (handedToReplace s c fs) = Inr s' \<and> indexWellFormed s' \<and>
            globalViewCorrect s'"
      using a by (intro replace_preserves) simp_all
    then obtain s' where "replace ?s1 ident (fs @ fst ?r) = Inr s'" "indexWellFormed s'"
      "globalViewCorrect s'" unfolding eq by blast
    with True a show ?thesis by (auto simp: ReplaceWithDelete_def Let_def)
  next
    case False
    with a assms show ?thesis by (simp add: ReplaceWithDelete_def)
  qed
qed

text \<open>From a new set through the three-peer scenario (peers 0, 1 and 2 replace with a@5, a@7 and
  a@7: the global key of a is a@7 and the availability is 0b110), then peer 0 updates to a@8;
  and the local peer replaces with b@3 and then deletes it.\<close>

theorem global_view_preserved_witness:
  "indexWellFormed NewSet \<and> globalViewCorrect NewSet \<and>
   indexWellFormed threePeers \<and> globalViewCorrect threePeers \<and>
   map_of (globalKey threePeers) ''a'' = Some \<lparr>KName = ''a'', KVersion = 7\<rparr> \<and>
   Availability threePeers ''a'' = 6 \<and>
   notBelowHeld threePeers 0 [mkFile ''a'' 8] \<and>
   (\<exists>s'. Update threePeers 0 [mkFile ''a'' 8] = Inr s' \<and> globalViewCorrect s') \<and>
   globalViewCorrect localB3 \<and>
   handedToReplace localB3 0 [] =
     [\<lparr>Name = ''b'', Version = 4, Flags = FlagDeleted, Modified = 0, Size = 0, Blocks = [],
       Suppressed = False\<rparr>] \<and>
   ReplaceWithDelete localB3 0 LocalID [] = Inr localB3Deleted \<and>
   globalViewCorrect (fst localB3Deleted)"
proof -
  have ok: "\<And>n v. v \<noteq> 0 \<Longrightarrow> positiveVersions [mkFile n v] \<and> ascendingPerName [mkFile n v]"
    by (simp add: positiveVersions_def mkFile_def)
  note N = NewSet_global_view[THEN conjunct1] NewSet_global_view[THEN conjunct2]
  from global_view_preserved[OF N, of 0 "[mkFile ''a'' 5]"] ok[of 5 "''a''"]
  obtain s1 where s1: "Replace NewSet 0 [mkFile ''a'' 5] = Inr s1" "indexWellFormed s1"
    "globalViewCorrect s1" by auto
  from global_view_preserved[OF s1(2,3), of 1 "[mkFile ''a'' 7]"] ok[of 7 "''a''"]
  obtain s2 where s2: "Replace s1 1 [mkFile ''a'' 7] = Inr s2" "indexWellFormed s2"
    "globalViewCorrect s2" by auto
  from global_view_preserved[OF s2(2,3), of 2 "[mkFile ''a'' 7]"] ok[of 7 "''a''"]
  obtain s3 where s3: "Replace s2 2 [mkFile ''a'' 7] = Inr s3" "indexWellFormed s3"
    "globalViewCorrect s3" by auto
  from s1(1) s2(1) s3(1) have "threePeers = s3" by (simp add: threePeers_def)
  with s3 have T: "indexWellFormed threePeers" "globalViewCorrect threePeers" by simp_all
  have ev: "map_of (globalKey threePeers) ''a'' = Some \<lparr>KName = ''a'', KVersion = 7\<rparr>"
    "Availability threePeers ''a'' = 6"
    "held threePeers 0 ''a'' = Some \<lparr>KName = ''a'', KVersion = 5\<rparr>"
    "remoteKey threePeers 0 \<noteq> None"
    by code_simp+
  have nb: "notBelowHeld threePeers 0 [mkFile ''a'' 8]"
    using ev(3) by (simp add: notBelowHeld_def mkFile_def)
  obtain s4 where s4: "Update threePeers 0 [mkFile ''a'' 8] = Inr s4"
    using Update_returns[OF _ ev(4), of "[mkFile ''a'' 8]"] by auto
  with global_view_preserved[OF T, of 0 "[mkFile ''a'' 8]"] ok[of 8 "''a''"] nb
  have U: "\<exists>s'. Update threePeers 0 [mkFile ''a'' 8] = Inr s' \<and> globalViewCorrect s'"
    by auto
  from global_view_preserved[OF N, of LocalID "[mkFile ''b'' 3]"] ok[of 3 "''b''"] localB3_Inr
  have L: "indexWellFormed localB3" "globalViewCorrect localB3"
    by (auto simp: LocalID_def)
  have h: "handedToReplace localB3 0 [] =
     [\<lparr>Name = ''b'', Version = 4, Flags = FlagDeleted, Modified = 0, Size = 0, Blocks = [],
       Suppressed = False\<rparr>]"
    by code_simp
  then have hp: "positiveVersions (handedToReplace localB3 0 [])"
    "ascendingPerName (handedToReplace localB3 0 [])"
    by (simp_all add: positiveVersions_def)
  have le: "LocalID \<le> 63" by (simp add: LocalID_def)
  note third = global_view_preserved[OF L, of LocalID "[]" 0, THEN conjunct2, THEN conjunct2,
      rule_format]
  from third[OF conjI[OF le conjI[OF hp]]]
  obtain s' c' where d: "ReplaceWithDelete localB3 0 LocalID [] = Inr (s', c')"
    "globalViewCorrect s'" by blast
  from d(1) localB3Deleted_Inr have "s' = fst localB3Deleted"
    by (metis fst_conv sum.inject(2))
  with d(2) have D: "globalViewCorrect (fst localB3Deleted)" by simp
  from N T ev(1,2) nb U L(2) h localB3Deleted_Inr D show ?thesis by blast
qed

end
